theory Spec2Isabelle
  imports Main "HOL-Library.Word"
begin

unbundle bit_operations_syntax

section \<open>Transactions\<close>

text \<open>
  \<^verbatim>\<open>common.Hash\<close> is a 32-byte array and \<^verbatim>\<open>common.Address\<close> a 20-byte array; both are
  compared bytewise, which is the order of the big-endian number they spell.
  \<^verbatim>\<open>time.Time\<close> is an instant, kept as nanoseconds since the epoch.
\<close>

type_synonym hash = "256 word"

type_synonym address = "160 word"

type_synonym instant = int

type_synonym byte = "8 word"

text \<open>
  \<^verbatim>\<open>MemPoolTx\<close>: the fields the pool, the pruner and the gossip writer read or write.
  \<^verbatim>\<open>GasPrice\<close> is a big unsigned integer.
\<close>

record MemPoolTx =
  From :: address
  Gas :: "64 word"
  GasPrice :: nat
  Hash :: hash
  Input :: "byte list"
  Nonce :: "64 word"
  To :: "address option"
  PendingFrom :: instant
  QueuedAt :: instant
  ConfirmedAt :: instant
  DroppedAt :: instant
  Pool :: string
  ReceivedFrom :: string

text \<open>
  Modelled from the spec: the declaration of the status constants of \<^verbatim>\<open>TxStatus\<close> is
  missing from the sources; the removal reasons are confirmed, dropped and unstuck.
\<close>

datatype status = CONFIRMED | DROPPED | UNSTUCK

record TxStatus =
  TxHash :: hash
  Status :: status

section \<open>Configuration\<close>

text \<open>
  \<^verbatim>\<open>config.Get\<close> reads a key of the environment file; an unset key reads as the empty
  string.
\<close>

type_synonym config = "string \<Rightarrow> string"

definition GetPendingTxEntryPublishTopic :: "config \<Rightarrow> string" where
  "GetPendingTxEntryPublishTopic cfg =
     (let v = cfg ''PendingTxEntryTopic''
      in if length v \<noteq> 0 then v else ''pending_pool_entry'')"

definition GetPendingTxExitPublishTopic :: "config \<Rightarrow> string" where
  "GetPendingTxExitPublishTopic cfg =
     (let v = cfg ''PendingTxExitTopic''
      in if length v \<noteq> 0 then v else ''pending_pool_exit'')"

section \<open>Sorted transaction lists\<close>

text \<open>
  Modelled from the spec: the orderings of the concrete \<^verbatim>\<open>TxList\<close> types are missing from
  the sources. The spec's gas-price list ascends by (gas price, pending-from, hash), its
  descending list holds the same references in reverse order, and a sender's list ascends by
  (nonce, gas price descending, hash). Each is written as a strict "comes before" relation.
\<close>

definition asc_before :: "MemPoolTx \<Rightarrow> MemPoolTx \<Rightarrow> bool" where
  "asc_before a b =
     (GasPrice a < GasPrice b \<or>
      (GasPrice a = GasPrice b \<and>
        (PendingFrom a < PendingFrom b \<or>
         (PendingFrom a = PendingFrom b \<and> Hash a < Hash b))))"

definition desc_before :: "MemPoolTx \<Rightarrow> MemPoolTx \<Rightarrow> bool" where
  "desc_before a b = asc_before b a"

definition sender_before :: "MemPoolTx \<Rightarrow> MemPoolTx \<Rightarrow> bool" where
  "sender_before a b =
     (Nonce a < Nonce b \<or>
      (Nonce a = Nonce b \<and>
        (GasPrice b < GasPrice a \<or>
         (GasPrice a = GasPrice b \<and> Hash a < Hash b))))"

text \<open>
  Modelled from the spec: \<^verbatim>\<open>Insert\<close> on a \<^verbatim>\<open>TxList\<close> is missing from the sources. The spec's
  \<open>insert(tx)\<close> puts the reference at its place in the order of the list. The source
  fixes the order by the concrete type of the list; here it is the first argument.
\<close>

fun Insert :: "(MemPoolTx \<Rightarrow> MemPoolTx \<Rightarrow> bool) \<Rightarrow> MemPoolTx list \<Rightarrow> MemPoolTx \<Rightarrow> MemPoolTx list" where
  "Insert before [] tx = [tx]"
| "Insert before (y # ys) tx =
     (if before tx y then tx # y # ys else y # Insert before ys tx)"

text \<open>
  Modelled from the spec: \<^verbatim>\<open>Remove\<close> on a \<^verbatim>\<open>TxList\<close> is missing from the sources. The spec's
  \<open>remove(tx)\<close> takes the reference out and keeps the order of the rest; a reference
  is identified by the hash of its transaction, on which the spec breaks every tie.
\<close>

fun Remove :: "MemPoolTx list \<Rightarrow> MemPoolTx \<Rightarrow> MemPoolTx list" where
  "Remove [] tx = []"
| "Remove (y # ys) tx = (if Hash y = Hash tx then ys else y # Remove ys tx)"

section \<open>The pending pool\<close>

text \<open>
  The state owned by \<^verbatim>\<open>PendingPool.Start\<close>. \<^verbatim>\<open>DroppedTxs\<close> is a map to \<^verbatim>\<open>bool\<close> of which only
  the keys are read. The indexes hold pointers to the transactions; they are kept here by
  value, and every index holds the same value for a hash. \<open>published\<close> records the calls
  of \<^verbatim>\<open>PublishAdded\<close> and \<^verbatim>\<open>PublishRemoved\<close> in order: the topic and the transaction to
  serialise.
\<close>

record PendingPool =
  Transactions :: "hash \<rightharpoonup> MemPoolTx"
  TxsFromAddress :: "address \<rightharpoonup> MemPoolTx list"
  DroppedTxs :: "hash \<rightharpoonup> bool"
  AscTxsByGasPrice :: "MemPoolTx list"
  DescTxsByGasPrice :: "MemPoolTx list"
  published :: "(string \<times> MemPoolTx) list"

datatype panic = IndexOutOfRange | NilTxList | SliceBoundsOutOfRange

definition empty_pool :: PendingPool where
  "empty_pool =
     \<lparr>Transactions = Map.empty, TxsFromAddress = Map.empty, DroppedTxs = Map.empty,
      AscTxsByGasPrice = [], DescTxsByGasPrice = [], published = []\<rparr>"

definition hasBeenAllocatedFor :: "PendingPool \<Rightarrow> address \<Rightarrow> bool" where
  "hasBeenAllocatedFor p addr = (case TxsFromAddress p addr of None \<Rightarrow> False | Some _ \<Rightarrow> True)"

text \<open>
  \<^verbatim>\<open>allocateFor\<close> returns the sender's list, creating an empty one when there is none.
  Reading a key that a Go map does not hold gives nil, the empty list.
\<close>

definition allocateFor :: "PendingPool \<Rightarrow> address \<Rightarrow> MemPoolTx list \<times> PendingPool" where
  "allocateFor p addr =
     (if hasBeenAllocatedFor p addr
      then (case TxsFromAddress p addr of Some txs \<Rightarrow> txs | None \<Rightarrow> [], p)
      else ([], p\<lparr>TxsFromAddress := (TxsFromAddress p)(addr \<mapsto> [])\<rparr>))"

text \<open>
  The pool's capacity is \<^verbatim>\<open>config.GetPendingPoolSize()\<close>, a \<^verbatim>\<open>uint64\<close> whose definition is
  missing from the sources: it is the parameter \<open>cap\<close>. The length of a list is a Go
  \<^verbatim>\<open>int\<close>, so \<^verbatim>\<open>uint64(len)+1\<close> does not wrap.
\<close>

definition needToDropTxs :: "nat \<Rightarrow> PendingPool \<Rightarrow> bool" where
  "needToDropTxs cap p = (length (AscTxsByGasPrice p) + 1 > cap)"

text \<open>
  \<^verbatim>\<open>p.AscTxsByGasPrice.get()[0]\<close>: indexing an empty slice panics.
\<close>

definition pickTxWithLowestGasPrice :: "PendingPool \<Rightarrow> panic + MemPoolTx" where
  "pickTxWithLowestGasPrice p =
     (case AscTxsByGasPrice p of [] \<Rightarrow> Inl IndexOutOfRange | tx # _ \<Rightarrow> Inr tx)"

definition addTx :: "PendingPool \<Rightarrow> MemPoolTx \<Rightarrow> PendingPool" where
  "addTx p tx =
     (let p1 = p\<lparr>AscTxsByGasPrice := Insert asc_before (AscTxsByGasPrice p) tx\<rparr>;
          p2 = p1\<lparr>DescTxsByGasPrice := Insert desc_before (DescTxsByGasPrice p1) tx\<rparr>;
          (txs, p3) = allocateFor p2 (From tx);
          p4 = p3\<lparr>TxsFromAddress := (TxsFromAddress p3)(From tx \<mapsto> Insert sender_before txs tx)\<rparr>
      in p4\<lparr>Transactions := (Transactions p4)(Hash tx \<mapsto> tx)\<rparr>)"

text \<open>
  \<^verbatim>\<open>removeTx\<close>: \<^verbatim>\<open>p.TxsFromAddress[tx.From]\<close> of a sender with no entry is a nil \<^verbatim>\<open>TxList\<close>,
  and a method call on a nil interface value panics.
\<close>

definition removeTx :: "PendingPool \<Rightarrow> MemPoolTx \<Rightarrow> panic + PendingPool" where
  "removeTx p tx =
     (let p1 = p\<lparr>AscTxsByGasPrice := Remove (AscTxsByGasPrice p) tx\<rparr>;
          p2 = p1\<lparr>DescTxsByGasPrice := Remove (DescTxsByGasPrice p1) tx\<rparr>
      in case TxsFromAddress p2 (From tx) of
           None \<Rightarrow> Inl NilTxList
         | Some txs \<Rightarrow>
             (let p3 = p2\<lparr>TxsFromAddress := (TxsFromAddress p2)(From tx \<mapsto> Remove txs tx)\<rparr>
              in Inr (p3\<lparr>Transactions := (Transactions p3)(Hash tx := None)\<rparr>)))"

definition dropTx :: "PendingPool \<Rightarrow> MemPoolTx \<Rightarrow> panic + PendingPool" where
  "dropTx p tx =
     (case removeTx p tx of
        Inl e \<Rightarrow> Inl e
      | Inr p1 \<Rightarrow> Inr (p1\<lparr>DroppedTxs := (DroppedTxs p1)(Hash tx \<mapsto> True)\<rparr>))"

text \<open>
  \<^verbatim>\<open>PublishAdded\<close> and \<^verbatim>\<open>PublishRemoved\<close> serialise the transaction and publish it on the
  configured topic; a failure of either step is logged and changes nothing else.
\<close>

definition PublishAdded :: "config \<Rightarrow> PendingPool \<Rightarrow> MemPoolTx \<Rightarrow> PendingPool" where
  "PublishAdded cfg p msg = p\<lparr>published := published p @ [(GetPendingTxEntryPublishTopic cfg, msg)]\<rparr>"

definition PublishRemoved :: "config \<Rightarrow> PendingPool \<Rightarrow> MemPoolTx \<Rightarrow> PendingPool" where
  "PublishRemoved cfg p msg = p\<lparr>published := published p @ [(GetPendingTxExitPublishTopic cfg, msg)]\<rparr>"

text \<open>
  \<^verbatim>\<open>txAdder\<close>. The request carries a pointer to the transaction, which the accepted path
  stamps: the result holds the reply, the transaction as the caller sees it afterwards,
  and the pool. \<open>now\<close> is the reading of \<^verbatim>\<open>time.Now().UTC()\<close>.
\<close>

definition txAdder :: "config \<Rightarrow> nat \<Rightarrow> instant \<Rightarrow> PendingPool \<Rightarrow> MemPoolTx
    \<Rightarrow> panic + (bool \<times> MemPoolTx \<times> PendingPool)" where
  "txAdder cfg cap now p tx =
     (if Hash tx \<in> dom (Transactions p) then Inr (False, tx, p)
      else if Hash tx \<in> dom (DroppedTxs p) then Inr (False, tx, p)
      else
        (case (if needToDropTxs cap p
               then (case pickTxWithLowestGasPrice p of
                       Inl e \<Rightarrow> Inl e
                     | Inr victim \<Rightarrow> dropTx p victim)
               else Inr p) of
           Inl e \<Rightarrow> Inl e
         | Inr p1 \<Rightarrow>
             (let tx' = tx\<lparr>PendingFrom := now, Pool := ''pending''\<rparr>;
                  p2 = addTx p1 tx';
                  p3 = PublishAdded cfg p2 tx'
              in Inr (True, tx', p3))))"

text \<open>
  \<^verbatim>\<open>txRemover\<close>. The transaction found in \<^verbatim>\<open>Transactions\<close> is the object every index
  refers to; it is stamped and then removed from all of them, so no index is left holding
  the unstamped value.
\<close>

definition txRemover :: "config \<Rightarrow> instant \<Rightarrow> PendingPool \<Rightarrow> TxStatus \<Rightarrow> panic + (bool \<times> PendingPool)" where
  "txRemover cfg now p txStat =
     (case Transactions p (TxHash txStat) of
        None \<Rightarrow> Inr (False, p)
      | Some tx \<Rightarrow>
          (let tx1 = (if Status txStat = DROPPED
                      then tx\<lparr>Pool := ''dropped'', DroppedAt := now\<rparr> else tx);
               tx2 = (if Status txStat = CONFIRMED
                      then tx1\<lparr>Pool := ''confirmed'', ConfirmedAt := now\<rparr> else tx1)
           in case removeTx p tx2 of
                Inl e \<Rightarrow> Inl e
              | Inr p1 \<Rightarrow> Inr (True, PublishRemoved cfg p1 tx2)))"

section \<open>The event loop on additions and removals\<close>

text \<open>
  \<^verbatim>\<open>Start\<close> serves one request at a time. A request is taken with the clock reading its
  handler sees. A panic ends the loop, and the process with it.
\<close>

datatype request = AddRequest MemPoolTx instant | RemoveRequest TxStatus instant

fun serve :: "config \<Rightarrow> nat \<Rightarrow> PendingPool \<Rightarrow> request \<Rightarrow> panic + (bool \<times> PendingPool)" where
  "serve cfg cap p (AddRequest tx now) =
     (case txAdder cfg cap now p tx of
        Inl e \<Rightarrow> Inl e
      | Inr (ok, _, p') \<Rightarrow> Inr (ok, p'))"
| "serve cfg cap p (RemoveRequest txStat now) = txRemover cfg now p txStat"

fun Start :: "config \<Rightarrow> nat \<Rightarrow> PendingPool \<Rightarrow> request list \<Rightarrow> panic + PendingPool" where
  "Start cfg cap p [] = Inr p"
| "Start cfg cap p (req # reqs) =
     (case serve cfg cap p req of
        Inl e \<Rightarrow> Inl e
      | Inr (_, p') \<Rightarrow> Start cfg cap p' reqs)"

text \<open>How often a hash occurs in a list of transactions.\<close>

definition hash_count :: "MemPoolTx list \<Rightarrow> hash \<Rightarrow> nat" where
  "hash_count txs h = length (filter (\<lambda>tx. Hash tx = h) txs)"

text \<open>
  The hash occurs exactly once in each gas-price list, and exactly once in the list of the
  sender of the transaction that carries it.
\<close>

definition indexed_once :: "PendingPool \<Rightarrow> hash \<Rightarrow> bool" where
  "indexed_once p h =
     (hash_count (AscTxsByGasPrice p) h = 1 \<and>
      hash_count (DescTxsByGasPrice p) h = 1 \<and>
      (\<exists>tx \<in> set (AscTxsByGasPrice p). Hash tx = h \<and>
         (case TxsFromAddress p (From tx) of
            None \<Rightarrow> False
          | Some txs \<Rightarrow> hash_count txs h = 1)))"

text \<open>The hash occurs in no index at all.\<close>

definition unindexed :: "PendingPool \<Rightarrow> hash \<Rightarrow> bool" where
  "unindexed p h =
     (hash_count (AscTxsByGasPrice p) h = 0 \<and>
      hash_count (DescTxsByGasPrice p) h = 0 \<and>
      (\<forall>a txs. TxsFromAddress p a = Some txs \<longrightarrow> hash_count txs h = 0))"

text \<open>The invariant that the loop keeps, from which the counts follow.\<close>

definition keyed :: "PendingPool \<Rightarrow> bool" where
  "keyed p = (\<forall>h tx. Transactions p h = Some tx \<longrightarrow> Hash tx = h)"

definition asc_ok :: "PendingPool \<Rightarrow> bool" where
  "asc_ok p =
     (distinct (map Hash (AscTxsByGasPrice p)) \<and>
      set (AscTxsByGasPrice p) = ran (Transactions p))"

definition desc_ok :: "PendingPool \<Rightarrow> bool" where
  "desc_ok p =
     (distinct (map Hash (DescTxsByGasPrice p)) \<and>
      set (DescTxsByGasPrice p) = ran (Transactions p))"

definition senders_ok :: "PendingPool \<Rightarrow> bool" where
  "senders_ok p =
     ((\<forall>a txs. TxsFromAddress p a = Some txs \<longrightarrow>
         distinct (map Hash txs) \<and> set txs = {tx \<in> ran (Transactions p). From tx = a}) \<and>
      (\<forall>tx \<in> ran (Transactions p). From tx \<in> dom (TxsFromAddress p)))"

definition tombs_ok :: "PendingPool \<Rightarrow> bool" where
  "tombs_ok p = (dom (DroppedTxs p) \<inter> dom (Transactions p) = {})"

definition pool_inv :: "PendingPool \<Rightarrow> bool" where
  "pool_inv p = (keyed p \<and> asc_ok p \<and> desc_ok p \<and> senders_ok p \<and> tombs_ok p)"

text \<open>
  The transaction as \<^verbatim>\<open>txRemover\<close> stamps it for a removal reason, before it is taken out of
  the indexes and published.
\<close>

definition stamp_removed :: "instant \<Rightarrow> status \<Rightarrow> MemPoolTx \<Rightarrow> MemPoolTx" where
  "stamp_removed now st tx =
     (let tx1 = (if st = DROPPED then tx\<lparr>Pool := ''dropped'', DroppedAt := now\<rparr> else tx)
      in if st = CONFIRMED then tx1\<lparr>Pool := ''confirmed'', ConfirmedAt := now\<rparr> else tx1)"

subsection \<open>Runs of additions\<close>

text \<open>
  A run of \<^verbatim>\<open>Add\<close> requests, each with the clock reading of its handler.
\<close>

definition adds :: "(MemPoolTx \<times> instant) list \<Rightarrow> request list" where
  "adds xs = map (\<lambda>(tx, now). AddRequest tx now) xs"

text \<open>
  A list of transactions in gas-price order: no transaction pays less than an earlier one.
\<close>

definition gas_sorted :: "MemPoolTx list \<Rightarrow> bool" where
  "gas_sorted txs = sorted_wrt (\<lambda>a b. GasPrice a \<le> GasPrice b) txs"

text \<open>
  What holds of the pool after the transactions \<open>txs\<close> were added in gas-price order to an
  empty pool of capacity \<open>C\<close>: the ascending list is in gas-price order and holds
  \<open>min (length txs) C\<close> of them, every hash presented is either pooled or a tombstone, and
  no tombstoned transaction pays more than a pooled one.
\<close>

definition filled :: "nat \<Rightarrow> MemPoolTx list \<Rightarrow> PendingPool \<Rightarrow> bool" where
  "filled C txs p =
     (pool_inv p \<and> gas_sorted (AscTxsByGasPrice p) \<and>
      length (AscTxsByGasPrice p) = min (length txs) C \<and>
      dom (Transactions p) \<union> dom (DroppedTxs p) = Hash ` set txs \<and>
      (\<forall>k \<in> set (AscTxsByGasPrice p). \<exists>t \<in> set txs. Hash t = Hash k \<and> GasPrice t = GasPrice k) \<and>
      (\<forall>k \<in> set (AscTxsByGasPrice p). \<forall>d \<in> set txs.
          Hash d \<in> dom (DroppedTxs p) \<longrightarrow> GasPrice d \<le> GasPrice k))"

text \<open>
  Invariants 1 and 4 of the pool, as the claim words them: a hash is a key of
  \<open>Transactions\<close> exactly when every index holds it once, a hash that is no key is in no
  index, and no tombstone is a key.
\<close>

definition invariants_hold :: "PendingPool \<Rightarrow> bool" where
  "invariants_hold p =
     ((\<forall>h. (h \<in> dom (Transactions p)) = indexed_once p h) \<and>
      (\<forall>h. h \<notin> dom (Transactions p) \<longrightarrow> unindexed p h) \<and>
      (\<forall>h. h \<in> dom (DroppedTxs p) \<longrightarrow> h \<notin> dom (Transactions p)))"

text \<open>
  The number of tombstones a run ends with (none when the loop panicked).
\<close>

definition tombstone_count :: "panic + PendingPool \<Rightarrow> nat" where
  "tombstone_count r = (case r of Inl e \<Rightarrow> 0 | Inr p \<Rightarrow> card (dom (DroppedTxs p)))"

subsection \<open>Example data\<close>

text \<open>
  An environment file that sets no key, a transaction with a given hash, sender and gas
  price, the request sequences of the spec's scenarios, and a few pools: one that holds a
  single transaction, one from which the only transaction was removed again, and one with
  a single tombstone.
\<close>

definition unset :: config where
  "unset key = []"

definition mk_tx :: "hash \<Rightarrow> address \<Rightarrow> nat \<Rightarrow> MemPoolTx" where
  "mk_tx h a g =
     \<lparr>From = a, Gas = 21000, GasPrice = g, Hash = h, Input = [], Nonce = 0, To = None,
      PendingFrom = 0, QueuedAt = 0, ConfirmedAt = 0, DroppedAt = 0, Pool = [],
      ReceivedFrom = []\<rparr>"

definition demo_requests :: "request list" where
  "demo_requests =
     [AddRequest (mk_tx 1 7 10) 100, AddRequest (mk_tx 2 7 20) 101,
      AddRequest (mk_tx 3 8 30) 102, RemoveRequest \<lparr>TxHash = 3, Status = CONFIRMED\<rparr> 103,
      AddRequest (mk_tx 1 7 10) 104]"

definition scenario3 :: "(MemPoolTx \<times> instant) list" where
  "scenario3 = [(mk_tx 1 7 10, 100), (mk_tx 2 7 20, 101), (mk_tx 3 8 30, 102)]"

definition four_adds :: "(MemPoolTx \<times> instant) list" where
  "four_adds = [(mk_tx 1 7 10, 100), (mk_tx 2 7 20, 101), (mk_tx 3 8 30, 102), (mk_tx 4 8 40, 103)]"

definition one_tx_pool :: PendingPool where
  "one_tx_pool = addTx empty_pool (mk_tx 1 7 10)"

definition emptied_pool :: PendingPool where
  "emptied_pool =
     (case Start unset 2 empty_pool
             [AddRequest (mk_tx 1 7 10) 100, RemoveRequest \<lparr>TxHash = 1, Status = CONFIRMED\<rparr> 101] of
        Inl e \<Rightarrow> empty_pool
      | Inr p \<Rightarrow> p)"

definition tombstoned_pool :: PendingPool where
  "tombstoned_pool = empty_pool\<lparr>DroppedTxs := [1 \<mapsto> True]\<rparr>"

section \<open>Read requests\<close>

text \<open>
  \<^verbatim>\<open>ListTxsChan\<close> and \<^verbatim>\<open>TxsFromAChan\<close> reply with a slice. A slice is nil or a view (length
  and capacity) of a backing array. The backing arrays of the pool's own lists are named
  \<open>AscArray\<close>, \<open>DescArray\<close> and \<open>SenderArray a\<close>; the arrays allocated by \<^verbatim>\<open>make\<close> while
  requests are served are kept in a list, in the order of their allocation, and \<open>Made i\<close>
  names the \<open>i\<close>-th of them. An array of \<^verbatim>\<open>*MemPoolTx\<close> holds nil (\<open>None\<close>) where nothing was
  stored. An element that was stored is a pointer, written as the transaction it pointed
  to when it was stored. \<^verbatim>\<open>copy\<close> copies the pointers, not the transactions: these stay the
  pool's own objects, and \<^verbatim>\<open>txRemover\<close> stamps them in place.

  Modelled from the spec: the declaration of the list order constants is missing from the
  sources; the spec's \<open>List(order)\<close> takes the ascending or the descending order.
\<close>

datatype order = ASC | DESC

datatype array_ref = AscArray | DescArray | SenderArray address | Made nat

datatype slice = NilSlice | Slice array_ref nat nat

type_synonym made = "MemPoolTx option list list"

text \<open>
  \<^verbatim>\<open>make([]*MemPoolTx, n)\<close>: a new array of \<open>n\<close> nil pointers, and the slice of all of it.
\<close>

definition make_slice :: "nat \<Rightarrow> made \<Rightarrow> slice \<times> made" where
  "make_slice n m = (Slice (Made (length m)) n n, m @ [replicate n None])"

text \<open>
  \<^verbatim>\<open>copy(dst, src)\<close> overwrites the first \<open>min (len dst) (len src)\<close> elements of \<open>dst\<close>.
\<close>

definition copy_into :: "slice \<Rightarrow> MemPoolTx list \<Rightarrow> made \<Rightarrow> made" where
  "copy_into dst src m =
     (case dst of
        Slice (Made i) n c \<Rightarrow>
          (if i < length m
           then (let k = min n (length src)
                 in m[i := map Some (take k src) @ drop k (m ! i)])
           else m)
      | _ \<Rightarrow> m)"

text \<open>
  The three lines every non-empty reply shares:
  \<^verbatim>\<open>copied := make([]*MemPoolTx, txs.len()); copy(copied, txs.get()); ResponseChan <- copied\<close>.
\<close>

definition reply_copy :: "MemPoolTx list \<Rightarrow> made \<Rightarrow> slice \<times> made" where
  "reply_copy txs m =
     (let (copied, m1) = make_slice (length txs) m
      in (copied, copy_into copied txs m1))"

text \<open>
  The \<^verbatim>\<open>ListTxsChan\<close> case of \<^verbatim>\<open>Start\<close>, which \<^verbatim>\<open>AscListTxs\<close> and \<^verbatim>\<open>DescListTxs\<close> call, and the
  \<^verbatim>\<open>TxsFromAChan\<close> case, which \<^verbatim>\<open>TxsFromA\<close> calls. Neither changes the pool.
\<close>

definition serveListTxs :: "order \<Rightarrow> PendingPool \<Rightarrow> made \<Rightarrow> slice \<times> made" where
  "serveListTxs ord p m =
     (case ord of
        ASC \<Rightarrow>
          (if length (AscTxsByGasPrice p) = 0 then (NilSlice, m)
           else reply_copy (AscTxsByGasPrice p) m)
      | DESC \<Rightarrow>
          (if length (DescTxsByGasPrice p) = 0 then (NilSlice, m)
           else reply_copy (DescTxsByGasPrice p) m))"

definition serveTxsFromA :: "address \<Rightarrow> PendingPool \<Rightarrow> made \<Rightarrow> slice \<times> made" where
  "serveTxsFromA from p m =
     (case TxsFromAddress p from of
        Some txs \<Rightarrow> (if length txs = 0 then (NilSlice, m) else reply_copy txs m)
      | None \<Rightarrow> (NilSlice, m))"

text \<open>
  The slice expression \<^verbatim>\<open>s[:x]\<close>: it panics when \<open>x\<close> exceeds the capacity of \<open>s\<close>, and the
  capacity of a nil slice is 0.
\<close>

definition slice_to :: "slice \<Rightarrow> nat \<Rightarrow> panic + slice" where
  "slice_to s x =
     (case s of
        NilSlice \<Rightarrow> (if x = 0 then Inr NilSlice else Inl SliceBoundsOutOfRange)
      | Slice r n c \<Rightarrow> (if x \<le> c then Inr (Slice r x c) else Inl SliceBoundsOutOfRange))"

definition TopXWithHighGasPrice :: "nat \<Rightarrow> PendingPool \<Rightarrow> made \<Rightarrow> panic + (slice \<times> made)" where
  "TopXWithHighGasPrice x p m =
     (let (txs, m') = serveListTxs DESC p m
      in case slice_to txs x of Inl e \<Rightarrow> Inl e | Inr s \<Rightarrow> Inr (s, m'))"

definition TopXWithLowGasPrice :: "nat \<Rightarrow> PendingPool \<Rightarrow> made \<Rightarrow> panic + (slice \<times> made)" where
  "TopXWithLowGasPrice x p m =
     (let (txs, m') = serveListTxs ASC p m
      in case slice_to txs x of Inl e \<Rightarrow> Inl e | Inr s \<Rightarrow> Inr (s, m'))"

section \<open>The codec\<close>

text \<open>
  \<^verbatim>\<open>FromMessagePack\<close> declares \<^verbatim>\<open>var tx *MemPoolTx\<close>, which is nil, and passes it to
  \<^verbatim>\<open>msgpack.Unmarshal\<close>. A pointer is an address or nil (\<open>None\<close>). The library function is
  a parameter: it is given the data and the pointer by value and answers with an error or
  nil, and whatever it does it cannot change the caller's variable \<^verbatim>\<open>tx\<close>.
\<close>

type_synonym tx_ptr = "nat option"

definition FromMessagePack :: "(byte list \<Rightarrow> tx_ptr \<Rightarrow> string option) \<Rightarrow> byte list
    \<Rightarrow> tx_ptr \<times> string option" where
  "FromMessagePack Unmarshal data =
     (let tx = None
      in case Unmarshal data tx of
           Some err \<Rightarrow> (None, Some err)
         | None \<Rightarrow> (tx, None))"

section \<open>The pruner\<close>

text \<open>
  \<^verbatim>\<open>Prune\<close>, for the transactions it found prunable in a batch. \<^verbatim>\<open>tx.IsDropped\<close> is missing
  from the sources and is a parameter: it answers with a flag and an error (\<open>None\<close> for
  nil). \<open>prune_job\<close> is the function submitted to the worker pool for one prunable
  transaction, and its result is what it sends on \<^verbatim>\<open>internalChan\<close>. \<open>prune_result\<close> is the
  \<^verbatim>\<open>internalChan\<close> case of the loop: the statuses for which it calls \<^verbatim>\<open>p.Remove\<close>.
  \<open>Prune_removals\<close> lists the \<^verbatim>\<open>Remove\<close> requests of a batch in the order of the
  prunables; the workers may deliver them in any order.
\<close>

definition prune_job :: "(MemPoolTx \<Rightarrow> bool \<times> string option) \<Rightarrow> MemPoolTx \<Rightarrow> TxStatus" where
  "prune_job IsDropped tx =
     (let (dropped, _) = IsDropped tx
      in if dropped then \<lparr>TxHash = Hash tx, Status = DROPPED\<rparr>
         else \<lparr>TxHash = Hash tx, Status = CONFIRMED\<rparr>)"

definition prune_result :: "TxStatus \<Rightarrow> TxStatus list" where
  "prune_result tx = (if Status tx = CONFIRMED \<or> Status tx = DROPPED then [tx] else [])"

definition Prune_removals :: "(MemPoolTx \<Rightarrow> bool \<times> string option) \<Rightarrow> MemPoolTx list \<Rightarrow> TxStatus list" where
  "Prune_removals IsDropped prunables =
     concat (map (\<lambda>tx. prune_result (prune_job IsDropped tx)) prunables)"

text \<open>
  A probe whose RPC call fails: it answers false and an error.
\<close>

definition failing_probe :: "MemPoolTx \<Rightarrow> bool \<times> string option" where
  "failing_probe tx = (False, Some ''connection refused'')"

section \<open>The gossip writer\<close>

text \<open>
  \<^verbatim>\<open>WriteTo\<close> for one peer. \<^verbatim>\<open>graph.UnmarshalPubSubMessage\<close> is missing from the sources and
  is a parameter; it answers nil (\<open>None\<close>) for a message it cannot decode.

  The stream is the \<^verbatim>\<open>bufio\<close> writer and what lies behind it. \<open>handed\<close> lists the chunks
  given to \<^verbatim>\<open>rw.Write\<close>, whether the call failed or not; \<open>buffered\<close> the chunks a successful
  \<^verbatim>\<open>Write\<close> has left in the buffer; \<open>flushed\<close> the chunks a successful \<^verbatim>\<open>Flush\<close> has passed
  on to the peer. Whether a \<^verbatim>\<open>Write\<close> or a \<^verbatim>\<open>Flush\<close> fails is decided by the peer: \<open>faults\<close>
  lists the outcomes of the coming calls (true for an error), and a call succeeds when the
  list is used up. A chunk whose \<^verbatim>\<open>Write\<close> failed is not buffered, and only what a successful
  \<^verbatim>\<open>Flush\<close> has passed on in full counts as flushed.
\<close>

record PushedMessage =
  Topic :: string
  Data :: "byte list"

record stream =
  handed :: "byte list list"
  buffered :: "byte list list"
  flushed :: "byte list list"
  faults :: "bool list"

definition new_stream :: stream where
  "new_stream = \<lparr>handed = [], buffered = [], flushed = [], faults = []\<rparr>"

definition next_fault :: "stream \<Rightarrow> bool \<times> stream" where
  "next_fault s = (case faults s of [] \<Rightarrow> (False, s) | f # fs \<Rightarrow> (f, s\<lparr>faults := fs\<rparr>))"

definition rw_Write :: "stream \<Rightarrow> byte list \<Rightarrow> bool \<times> stream" where
  "rw_Write s chunk =
     (case next_fault (s\<lparr>handed := handed s @ [chunk]\<rparr>) of
        (True, s1) \<Rightarrow> (True, s1)
      | (False, s1) \<Rightarrow> (False, s1\<lparr>buffered := buffered s1 @ [chunk]\<rparr>))"

definition rw_Flush :: "stream \<Rightarrow> bool \<times> stream" where
  "rw_Flush s =
     (case next_fault s of
        (True, s1) \<Rightarrow> (True, s1)
      | (False, s1) \<Rightarrow> (False, s1\<lparr>flushed := flushed s1 @ buffered s1, buffered := []\<rparr>))"

text \<open>
  \<^verbatim>\<open>binary.LittleEndian.PutUint32\<close>.
\<close>

definition PutUint32 :: "32 word \<Rightarrow> byte list" where
  "PutUint32 v = [ucast v, ucast (drop_bit 8 v), ucast (drop_bit 16 v), ucast (drop_bit 24 v)]"

text \<open>
  The closure \<^verbatim>\<open>process\<close>; true stands for the error it returns. The chunk is built as in
  the source: \<^verbatim>\<open>make\<close>, \<^verbatim>\<open>PutUint32\<close> into its first four bytes, \<^verbatim>\<open>copy\<close> into the rest.
\<close>

definition process :: "(byte list \<Rightarrow> MemPoolTx option) \<Rightarrow> string \<Rightarrow> PushedMessage \<Rightarrow> stream
    \<Rightarrow> bool \<times> stream" where
  "process UnmarshalPubSubMessage peerId msg s =
     (case UnmarshalPubSubMessage (Data msg) of
        None \<Rightarrow> (False, s)
      | Some unmarshalled \<Rightarrow>
          if ReceivedFrom unmarshalled = peerId then (False, s)
          else
            (let chunk0 = replicate (4 + length (Data msg)) (0 :: byte);
                 chunk1 = PutUint32 (of_nat (length (Data msg))) @ drop 4 chunk0;
                 n = min (length (drop 4 chunk1)) (length (Data msg));
                 chunk = take 4 chunk1 @ take n (Data msg) @ drop n (drop 4 chunk1)
             in if n \<noteq> length (Data msg) then (False, s)
                else
                  (case rw_Write s chunk of
                     (True, s1) \<Rightarrow> (True, s1)
                   | (False, s1) \<Rightarrow> rw_Flush s1)))"

text \<open>
  What wakes the loop of \<^verbatim>\<open>WriteTo\<close>: the context is done; \<^verbatim>\<open>subscriber.Watch()\<close> fires
  and \<^verbatim>\<open>Next()\<close> gives a message or nil; or the 256 ms timer fires, with the answers of
  \<^verbatim>\<open>Queued()\<close> and \<^verbatim>\<open>Next()\<close> and the number of further passes of the inner loop before
  \<^verbatim>\<open>time.Since(started)\<close> exceeds the duration. The inner loop has no post statement: it
  processes the same message on every pass.
\<close>

datatype event = Done | Watched "PushedMessage option" | Timeout bool "PushedMessage option" nat

fun drain :: "(byte list \<Rightarrow> MemPoolTx option) \<Rightarrow> string \<Rightarrow> PushedMessage \<Rightarrow> nat \<Rightarrow> stream
    \<Rightarrow> bool \<times> stream" where
  "drain um peerId received 0 s = process um peerId received s"
| "drain um peerId received (Suc n) s =
     (case process um peerId received s of
        (True, s') \<Rightarrow> (True, s')
      | (False, s') \<Rightarrow> drain um peerId received n s')"

text \<open>
  The loop, to the end of the events: the stream, and whether the writer has returned.
\<close>

fun WriteLoop :: "(byte list \<Rightarrow> MemPoolTx option) \<Rightarrow> string \<Rightarrow> event list \<Rightarrow> stream
    \<Rightarrow> stream \<times> bool" where
  "WriteLoop um peerId [] s = (s, False)"
| "WriteLoop um peerId (Done # evs) s = (s, True)"
| "WriteLoop um peerId (Watched None # evs) s = WriteLoop um peerId evs s"
| "WriteLoop um peerId (Watched (Some received) # evs) s =
     (case process um peerId received s of
        (True, s') \<Rightarrow> (s', True)
      | (False, s') \<Rightarrow> WriteLoop um peerId evs s')"
| "WriteLoop um peerId (Timeout queued nxt n # evs) s =
     (if \<not> queued then WriteLoop um peerId evs s
      else case nxt of
             None \<Rightarrow> WriteLoop um peerId evs s
           | Some received \<Rightarrow>
               (case drain um peerId received n s of
                  (True, s') \<Rightarrow> (s', True)
                | (False, s') \<Rightarrow> WriteLoop um peerId evs s'))"

text \<open>
  \<^verbatim>\<open>WriteTo\<close> returns at once when it cannot subscribe.
\<close>

definition WriteTo :: "(byte list \<Rightarrow> MemPoolTx option) \<Rightarrow> bool \<Rightarrow> string \<Rightarrow> event list \<Rightarrow> stream
    \<Rightarrow> stream \<times> bool" where
  "WriteTo um subscribed peerId evs s =
     (if \<not> subscribed then (s, True) else WriteLoop um peerId evs s)"

text \<open>
  What \<^verbatim>\<open>ReadFrom\<close> does with a chunk it has read from the peer: a chunk that does not
  decode is skipped; otherwise the transaction is stamped with the peer's id and handed to
  the pool.
\<close>

definition ReadFrom_chunk :: "(byte list \<Rightarrow> MemPoolTx option) \<Rightarrow> string \<Rightarrow> byte list
    \<Rightarrow> MemPoolTx option" where
  "ReadFrom_chunk UnmarshalPubSubMessage peerId chunk =
     (case UnmarshalPubSubMessage chunk of
        None \<Rightarrow> None
      | Some tx \<Rightarrow> Some (tx\<lparr>ReceivedFrom := peerId\<rparr>))"

text \<open>
  The frame of an encoded transaction: its length in four little-endian bytes, then the bytes.
\<close>

definition frame :: "byte list \<Rightarrow> byte list" where
  "frame d = PutUint32 (of_nat (length d)) @ d"

text \<open>
  An event delivers a message when it makes the loop call \<^verbatim>\<open>process\<close> on it: \<^verbatim>\<open>Watch()\<close>
  fired and \<^verbatim>\<open>Next()\<close> gave the message, or the timer fired, \<^verbatim>\<open>Queued()\<close> was true and
  \<^verbatim>\<open>Next()\<close> gave the message.
\<close>

definition delivers :: "event \<Rightarrow> PushedMessage \<Rightarrow> bool" where
  "delivers ev msg =
     (case ev of
        Done \<Rightarrow> False
      | Watched nxt \<Rightarrow> nxt = Some msg
      | Timeout queued nxt n \<Rightarrow> queued \<and> nxt = Some msg)"

text \<open>
  The next two calls on the stream, a \<^verbatim>\<open>Write\<close> and the \<^verbatim>\<open>Flush\<close> after it, succeed.
\<close>

definition next_two_succeed :: "stream \<Rightarrow> bool" where
  "next_two_succeed s = (\<not> fst (next_fault s) \<and> \<not> fst (next_fault (snd (next_fault s))))"

text \<open>
  Every chunk handed to the stream, buffered or flushed is the frame of a message that
  decodes to a transaction of another origin.
\<close>

definition foreign_frames :: "(byte list \<Rightarrow> MemPoolTx option) \<Rightarrow> string \<Rightarrow> stream \<Rightarrow> bool" where
  "foreign_frames um peerId s =
     (\<forall>c \<in> set (handed s) \<union> set (buffered s) \<union> set (flushed s).
        \<exists>d t. c = frame d \<and> um d = Some t \<and> ReceivedFrom t \<noteq> peerId)"

text \<open>
  Scenario 5 of the spec: the transaction 0xDD, received from peer A, a decoder that
  knows its encoding only, and the message that carries it.
\<close>

definition tx_dd :: MemPoolTx where
  "tx_dd =
     \<lparr>From = 7, Gas = 21000, GasPrice = 10, Hash = 221, Input = [], Nonce = 0, To = None,
      PendingFrom = 0, QueuedAt = 0, ConfirmedAt = 0, DroppedAt = 0, Pool = ''pending'',
      ReceivedFrom = ''peer A''\<rparr>"

definition from_peer_A :: "byte list \<Rightarrow> MemPoolTx option" where
  "from_peer_A data = (if data = [221] then Some tx_dd else None)"

definition msg_dd :: PushedMessage where
  "msg_dd = \<lparr>Topic = ''pending_pool_entry'', Data = [221]\<rparr>"

section \<open>The snapshot poller\<close>

text \<open>
  \<^verbatim>\<open>strings.Contains\<close>.
\<close>

fun Contains :: "string \<Rightarrow> string \<Rightarrow> bool" where
  "Contains [] substr = (substr = [])"
| "Contains (c # s) substr = (take (length substr) (c # s) = substr \<or> Contains s substr)"

text \<open>
  \<^verbatim>\<open>strconv.ParseUint(s, 10, 64)\<close>: the empty string and any byte that is no decimal digit
  are a syntax error (no sign, no underscore in base 10), a value of \<open>2 ^ 64\<close> or more is a
  range error.
\<close>

datatype num_error = ErrSyntax | ErrRange

definition digit :: "char \<Rightarrow> nat option" where
  "digit c = (if 48 \<le> (of_char c :: nat) \<and> (of_char c :: nat) \<le> 57 then Some (of_char c - 48) else None)"

fun digits :: "string \<Rightarrow> nat \<Rightarrow> nat option" where
  "digits [] acc = Some acc"
| "digits (c # cs) acc = (case digit c of None \<Rightarrow> None | Some d \<Rightarrow> digits cs (acc * 10 + d))"

definition ParseUint :: "string \<Rightarrow> num_error + nat" where
  "ParseUint s =
     (if s = [] then Inl ErrSyntax
      else case digits s 0 of
             None \<Rightarrow> Inl ErrSyntax
           | Some n \<Rightarrow> if n < 2 ^ 64 then Inr n else Inl ErrRange)"

definition GetMemPoolPollingPeriod :: "config \<Rightarrow> nat" where
  "GetMemPoolPollingPeriod cfg =
     (case ParseUint (cfg ''MemPoolPollingPeriod'') of
        Inl err \<Rightarrow> 1000
      | Inr period \<Rightarrow> period)"

text \<open>
  \<^verbatim>\<open>time.Duration(period) * time.Millisecond\<close>: a \<^verbatim>\<open>Duration\<close> is an \<^verbatim>\<open>int64\<close> of nanoseconds,
  so the conversion and the product wrap around. \<^verbatim>\<open>time.After\<close> of a duration that is not
  positive fires at once.
\<close>

definition sleep_for :: "nat \<Rightarrow> int" where
  "sleep_for period = sint ((of_nat period :: 64 word) * 1000000)"

text \<open>
  \<^verbatim>\<open>PollTxPoolContent\<close>, given the outcomes of its successive \<^verbatim>\<open>txpool_content\<close> calls: what
  the poller does, in order, and whether it has returned. With no outcome left it is
  waiting for the node.
\<close>

datatype 'r rpc_outcome = Result 'r | Failure string

datatype 'r poll_step = Process 'r | Stat | Sleep int | CloseComm

fun PollTxPoolContent :: "config \<Rightarrow> 'r rpc_outcome list \<Rightarrow> 'r poll_step list \<times> bool" where
  "PollTxPoolContent cfg [] = ([], False)"
| "PollTxPoolContent cfg (Failure err # rest) =
     (if Contains err ''context canceled'' then ([], True) else ([CloseComm], True))"
| "PollTxPoolContent cfg (Result result # rest) =
     (let (steps, exited) = PollTxPoolContent cfg rest
      in (Process result # Stat # Sleep (sleep_for (GetMemPoolPollingPeriod cfg)) # steps, exited))"

text \<open>
  An environment file that sets the polling period to 9223372036855 ms.
\<close>

definition huge_period :: config where
  "huge_period key = (if key = ''MemPoolPollingPeriod'' then ''9223372036855'' else [])"

section \<open>The pool keeps its indexes consistent\<close>

lemma set_Insert: "set (Insert b xs tx) = insert tx (set xs)"
  by (induction xs) auto

lemma distinct_Insert:
  "distinct (map Hash (Insert b xs tx)) = (Hash tx \<notin> Hash ` set xs \<and> distinct (map Hash xs))"
  by (induction xs) (auto simp: set_Insert)

lemma set_Remove:
  "distinct (map Hash xs) \<Longrightarrow> set (Remove xs tx) = {y \<in> set xs. Hash y \<noteq> Hash tx}"
  by (induction xs) (auto simp: rev_image_eqI)

lemma distinct_Remove:
  "distinct (map Hash xs) \<Longrightarrow> distinct (map Hash (Remove xs tx))"
  by (induction xs) (auto simp: set_Remove)

lemma hash_count_distinct:
  "distinct (map Hash xs) \<Longrightarrow> hash_count xs h = (if h \<in> Hash ` set xs then 1 else 0)"
  unfolding hash_count_def
  by (induction xs) (auto simp: rev_image_eqI)

lemma addTx_fields:
  "Transactions (addTx p tx) = (Transactions p)(Hash tx \<mapsto> tx)"
  "AscTxsByGasPrice (addTx p tx) = Insert asc_before (AscTxsByGasPrice p) tx"
  "DescTxsByGasPrice (addTx p tx) = Insert desc_before (DescTxsByGasPrice p) tx"
  "TxsFromAddress (addTx p tx) =
     (TxsFromAddress p)(From tx \<mapsto>
        Insert sender_before (case TxsFromAddress p (From tx) of None \<Rightarrow> [] | Some txs \<Rightarrow> txs) tx)"
  "DroppedTxs (addTx p tx) = DroppedTxs p"
  "published (addTx p tx) = published p"
  by (auto simp: addTx_def allocateFor_def hasBeenAllocatedFor_def Let_def split: option.splits)

lemma removeTx_fields:
  assumes "removeTx p tx = Inr p'"
  shows "Transactions p' = (Transactions p)(Hash tx := None)"
    and "AscTxsByGasPrice p' = Remove (AscTxsByGasPrice p) tx"
    and "DescTxsByGasPrice p' = Remove (DescTxsByGasPrice p) tx"
    and "\<exists>txs. TxsFromAddress p (From tx) = Some txs \<and>
           TxsFromAddress p' = (TxsFromAddress p)(From tx \<mapsto> Remove txs tx)"
    and "DroppedTxs p' = DroppedTxs p"
    and "published p' = published p"
  using assms by (auto simp: removeTx_def Let_def split: option.splits)

lemma removeTx_ok:
  "TxsFromAddress p (From tx) \<noteq> None \<Longrightarrow> \<exists>p'. removeTx p tx = Inr p'"
  by (auto simp: removeTx_def Let_def split: option.splits)

lemma ran_del_keyed:
  assumes "\<forall>k v. m k = Some v \<longrightarrow> f v = k"
  shows "ran (m(h := None)) = {v \<in> ran m. f v \<noteq> h}"
  using assms by (auto simp: ran_def)

lemma keyed_hash_image: "keyed p \<Longrightarrow> Hash ` ran (Transactions p) = dom (Transactions p)"
  by (force simp: keyed_def ran_def dom_def image_iff)

lemma addTx_keyed: "keyed p \<Longrightarrow> keyed (addTx p tx)"
  by (auto simp: keyed_def addTx_fields)

lemma addTx_asc_ok:
  assumes "keyed p" "asc_ok p" "Hash tx \<notin> dom (Transactions p)"
  shows "asc_ok (addTx p tx)"
proof -
  have "Hash tx \<notin> Hash ` set (AscTxsByGasPrice p)"
    using assms keyed_hash_image[of p] by (simp add: asc_ok_def)
  moreover have "Transactions p (Hash tx) = None" using assms(3) by auto
  ultimately show ?thesis
    using assms(2) by (simp add: asc_ok_def addTx_fields distinct_Insert set_Insert ran_map_upd)
qed

lemma addTx_desc_ok:
  assumes "keyed p" "desc_ok p" "Hash tx \<notin> dom (Transactions p)"
  shows "desc_ok (addTx p tx)"
proof -
  have "Hash tx \<notin> Hash ` set (DescTxsByGasPrice p)"
    using assms keyed_hash_image[of p] by (simp add: desc_ok_def)
  moreover have "Transactions p (Hash tx) = None" using assms(3) by auto
  ultimately show ?thesis
    using assms(2) by (simp add: desc_ok_def addTx_fields distinct_Insert set_Insert ran_map_upd)
qed

lemma addTx_senders_ok:
  assumes "keyed p" "senders_ok p" "Hash tx \<notin> dom (Transactions p)"
  shows "senders_ok (addTx p tx)"
proof -
  have none: "Transactions p (Hash tx) = None" using assms(3) by auto
  have ran: "ran (Transactions (addTx p tx)) = insert tx (ran (Transactions p))"
    by (simp add: addTx_fields ran_map_upd none)
  have fresh: "Hash tx \<notin> Hash ` ran (Transactions p)"
    using assms keyed_hash_image[of p] by simp
  let ?old = "case TxsFromAddress p (From tx) of None \<Rightarrow> [] | Some txs \<Rightarrow> txs"
  have old: "distinct (map Hash ?old) \<and> set ?old = {t \<in> ran (Transactions p). From t = From tx}"
  proof (cases "TxsFromAddress p (From tx)")
    case None
    then have "\<forall>t \<in> ran (Transactions p). From t \<noteq> From tx"
      using assms(2) by (auto simp: senders_ok_def)
    with None show ?thesis by auto
  next
    case (Some txs)
    then show ?thesis using assms(2) by (simp add: senders_ok_def)
  qed
  have new: "distinct (map Hash (Insert sender_before ?old tx)) \<and>
     set (Insert sender_before ?old tx) = {t \<in> insert tx (ran (Transactions p)). From t = From tx}"
    using old fresh by (auto simp: distinct_Insert set_Insert)
  show ?thesis
    unfolding senders_ok_def ran
  proof (intro conjI allI impI ballI)
    fix a txs assume h: "TxsFromAddress (addTx p tx) a = Some txs"
    show "distinct (map Hash txs)"
      using h new assms(2) by (auto simp: addTx_fields senders_ok_def split: if_splits)
    show "set txs = {t \<in> insert tx (ran (Transactions p)). From t = a}"
    proof (cases "a = From tx")
      case True
      then show ?thesis using h new by (simp add: addTx_fields)
    next
      case False
      then have "TxsFromAddress p a = Some txs" using h by (simp add: addTx_fields)
      then have "set txs = {t \<in> ran (Transactions p). From t = a}"
        using assms(2) by (simp add: senders_ok_def)
      then show ?thesis using False by auto
    qed
  next
    fix t assume "t \<in> insert tx (ran (Transactions p))"
    then show "From t \<in> dom (TxsFromAddress (addTx p tx))"
      using assms(2) by (auto simp: addTx_fields senders_ok_def)
  qed
qed

lemma addTx_tombs_ok:
  "tombs_ok p \<Longrightarrow> Hash tx \<notin> dom (DroppedTxs p) \<Longrightarrow> tombs_ok (addTx p tx)"
  by (auto simp: tombs_ok_def addTx_fields)

lemma addTx_inv:
  "pool_inv p \<Longrightarrow> Hash tx \<notin> dom (Transactions p) \<Longrightarrow> Hash tx \<notin> dom (DroppedTxs p)
     \<Longrightarrow> pool_inv (addTx p tx)"
  by (simp add: pool_inv_def addTx_keyed addTx_asc_ok addTx_desc_ok addTx_senders_ok addTx_tombs_ok)

lemma keyed_ran: "keyed p \<Longrightarrow> t \<in> ran (Transactions p) \<Longrightarrow> Transactions p (Hash t) = Some t"
  by (auto simp: keyed_def ran_def)

lemma ran_del_pool:
  "keyed p \<Longrightarrow> ran ((Transactions p)(h := None)) = {t \<in> ran (Transactions p). Hash t \<noteq> h}"
  by (rule ran_del_keyed) (simp add: keyed_def)

lemma removeTx_inv:
  assumes inv: "pool_inv p"
    and found: "Transactions p (Hash tx) = Some tx0"
    and same: "From tx = From tx0"
  shows "\<exists>p'. removeTx p tx = Inr p' \<and> pool_inv p'"
proof -
  have k: "keyed p" and a: "asc_ok p" and d: "desc_ok p" and s: "senders_ok p" and t: "tombs_ok p"
    using inv by (simp_all add: pool_inv_def)
  have tx0: "tx0 \<in> ran (Transactions p)" using found by (auto simp: ran_def)
  then have "From tx \<in> dom (TxsFromAddress p)" using s same by (auto simp: senders_ok_def)
  then obtain p' where p': "removeTx p tx = Inr p'"
    using removeTx_ok[of p tx] by auto
  note f = removeTx_fields[OF p']
  obtain txs where txs: "TxsFromAddress p (From tx) = Some txs"
    and tfa: "TxsFromAddress p' = (TxsFromAddress p)(From tx \<mapsto> Remove txs tx)"
    using f(4) by auto
  have ran': "ran (Transactions p') = {u \<in> ran (Transactions p). Hash u \<noteq> Hash tx}"
    by (simp add: f(1) ran_del_pool[OF k])
  have k': "keyed p'" using k by (auto simp: keyed_def f(1))
  have a': "asc_ok p'"
    using a by (auto simp: asc_ok_def f(2) ran' distinct_Remove set_Remove)
  have d': "desc_ok p'"
    using d by (auto simp: desc_ok_def f(3) ran' distinct_Remove set_Remove)
  have t': "tombs_ok p'" using t by (auto simp: tombs_ok_def f(1) f(5))
  have only: "u = tx0" if "u \<in> ran (Transactions p)" "Hash u = Hash tx" for u
    using keyed_ran[OF k that(1)] that(2) found by simp
  have s': "senders_ok p'"
    unfolding senders_ok_def ran'
  proof (intro conjI allI impI ballI)
    fix b l assume h: "TxsFromAddress p' b = Some l"
    show "distinct (map Hash l)"
      using h s txs by (auto simp: tfa senders_ok_def distinct_Remove split: if_splits)
    show "set l = {u \<in> {u \<in> ran (Transactions p). Hash u \<noteq> Hash tx}. From u = b}"
    proof (cases "b = From tx")
      case True
      then have l: "l = Remove txs tx" using h by (simp add: tfa)
      have "distinct (map Hash txs)" "set txs = {u \<in> ran (Transactions p). From u = From tx}"
        using s txs by (auto simp: senders_ok_def)
      then show ?thesis using True by (auto simp: l set_Remove)
    next
      case False
      then have "TxsFromAddress p b = Some l" using h by (simp add: tfa)
      then have "set l = {u \<in> ran (Transactions p). From u = b}"
        using s by (simp add: senders_ok_def)
      then show ?thesis using False only same by auto
    qed
  next
    fix u assume "u \<in> {u \<in> ran (Transactions p). Hash u \<noteq> Hash tx}"
    then show "From u \<in> dom (TxsFromAddress p')"
      using s by (auto simp: tfa senders_ok_def)
  qed
  show ?thesis using p' k' a' d' s' t' by (simp add: pool_inv_def)
qed

lemma asc_head_in_pool:
  assumes "pool_inv p" "AscTxsByGasPrice p = v # rest"
  shows "Transactions p (Hash v) = Some v"
proof -
  have "v \<in> ran (Transactions p)" using assms by (auto simp: pool_inv_def asc_ok_def)
  then show ?thesis using assms(1) by (simp add: pool_inv_def keyed_ran)
qed

lemma tombstone_inv:
  assumes "pool_inv p" "h \<notin> dom (Transactions p)"
  shows "pool_inv (p\<lparr>DroppedTxs := (DroppedTxs p)(h \<mapsto> b)\<rparr>)"
proof -
  have "keyed (p\<lparr>DroppedTxs := (DroppedTxs p)(h \<mapsto> b)\<rparr>) = keyed p"
    by (simp add: keyed_def)
  moreover have "asc_ok (p\<lparr>DroppedTxs := (DroppedTxs p)(h \<mapsto> b)\<rparr>) = asc_ok p"
    by (simp add: asc_ok_def)
  moreover have "desc_ok (p\<lparr>DroppedTxs := (DroppedTxs p)(h \<mapsto> b)\<rparr>) = desc_ok p"
    by (simp add: desc_ok_def)
  moreover have "senders_ok (p\<lparr>DroppedTxs := (DroppedTxs p)(h \<mapsto> b)\<rparr>) = senders_ok p"
    by (simp add: senders_ok_def)
  moreover have "tombs_ok (p\<lparr>DroppedTxs := (DroppedTxs p)(h \<mapsto> b)\<rparr>)"
    using assms by (auto simp: pool_inv_def tombs_ok_def)
  ultimately show ?thesis using assms(1) by (simp add: pool_inv_def)
qed

lemma dropTx_inv:
  assumes "pool_inv p" "Transactions p (Hash v) = Some v"
  shows "\<exists>p'. dropTx p v = Inr p' \<and> pool_inv p' \<and>
           Transactions p' = (Transactions p)(Hash v := None) \<and>
           DroppedTxs p' = (DroppedTxs p)(Hash v \<mapsto> True)"
proof -
  obtain p1 where p1: "removeTx p v = Inr p1" "pool_inv p1"
    using removeTx_inv[OF assms refl] by blast
  note f = removeTx_fields[OF p1(1)]
  have "Hash v \<notin> dom (Transactions p1)" by (simp add: f(1))
  then have "pool_inv (p1\<lparr>DroppedTxs := (DroppedTxs p1)(Hash v \<mapsto> True)\<rparr>)"
    by (rule tombstone_inv[OF p1(2)])
  then show ?thesis using p1(1) f(1) f(5) by (simp add: dropTx_def)
qed

lemma PublishAdded_inv: "pool_inv (PublishAdded cfg p msg) = pool_inv p"
  by (simp add: PublishAdded_def pool_inv_def keyed_def asc_ok_def desc_ok_def senders_ok_def tombs_ok_def)

lemma PublishRemoved_inv: "pool_inv (PublishRemoved cfg p msg) = pool_inv p"
  by (simp add: PublishRemoved_def pool_inv_def keyed_def asc_ok_def desc_ok_def senders_ok_def tombs_ok_def)

lemma txAdder_known:
  "Hash tx \<in> dom (Transactions p) \<or> Hash tx \<in> dom (DroppedTxs p) \<Longrightarrow>
     txAdder cfg cap now p tx = Inr (False, tx, p)"
  by (auto simp: txAdder_def)

lemma txAdder_inv:
  assumes "pool_inv p" "txAdder cfg cap now p tx = Inr (ok, tx', p')"
  shows "pool_inv p'"
proof (cases "Hash tx \<in> dom (Transactions p) \<or> Hash tx \<in> dom (DroppedTxs p)")
  case True
  then show ?thesis using assms txAdder_known[OF True, of cfg cap now] by simp
next
  case False
  let ?tx = "tx\<lparr>PendingFrom := now, Pool := ''pending''\<rparr>"
  have fresh: "Hash ?tx \<notin> dom (Transactions p)" "Hash ?tx \<notin> dom (DroppedTxs p)"
    using False by simp_all
  show ?thesis
  proof (cases "needToDropTxs cap p")
    case no: False
    then have "p' = PublishAdded cfg (addTx p ?tx) ?tx"
      using assms(2) False by (auto simp: txAdder_def Let_def)
    then show ?thesis using addTx_inv[OF assms(1) fresh] by (simp add: PublishAdded_inv)
  next
    case yes: True
    show ?thesis
    proof (cases "AscTxsByGasPrice p")
      case Nil
      then show ?thesis using assms(2) False yes
        by (simp add: txAdder_def pickTxWithLowestGasPrice_def)
    next
      case (Cons v rest)
      have v: "Transactions p (Hash v) = Some v" by (rule asc_head_in_pool[OF assms(1) Cons])
      obtain p1 where p1: "dropTx p v = Inr p1" "pool_inv p1"
        "Transactions p1 = (Transactions p)(Hash v := None)"
        "DroppedTxs p1 = (DroppedTxs p)(Hash v \<mapsto> True)"
        using dropTx_inv[OF assms(1) v] by auto
      have ne: "Hash tx \<noteq> Hash v" using False v by auto
      have fresh1: "Hash ?tx \<notin> dom (Transactions p1)" "Hash ?tx \<notin> dom (DroppedTxs p1)"
        using fresh ne by (simp_all add: p1)
      have "p' = PublishAdded cfg (addTx p1 ?tx) ?tx"
        using assms(2) False yes Cons p1(1)
        by (auto simp: txAdder_def Let_def pickTxWithLowestGasPrice_def)
      then show ?thesis using addTx_inv[OF p1(2) fresh1] by (simp add: PublishAdded_inv)
    qed
  qed
qed

lemma stamp_removed_same:
  "Hash (stamp_removed now st tx) = Hash tx" "From (stamp_removed now st tx) = From tx"
  by (simp_all add: stamp_removed_def)

lemma txRemover_alt:
  "txRemover cfg now p txStat =
     (case Transactions p (TxHash txStat) of
        None \<Rightarrow> Inr (False, p)
      | Some tx \<Rightarrow>
          (case removeTx p (stamp_removed now (Status txStat) tx) of
             Inl e \<Rightarrow> Inl e
           | Inr p1 \<Rightarrow> Inr (True, PublishRemoved cfg p1 (stamp_removed now (Status txStat) tx))))"
  by (auto simp: txRemover_def stamp_removed_def Let_def split: option.splits sum.splits)

lemma txRemover_inv:
  assumes "pool_inv p" "txRemover cfg now p txStat = Inr (ok, p')"
  shows "pool_inv p'"
proof (cases "Transactions p (TxHash txStat)")
  case None
  then show ?thesis using assms by (simp add: txRemover_alt)
next
  case (Some tx)
  define tx2 where "tx2 = stamp_removed now (Status txStat) tx"
  have h: "Hash tx = TxHash txStat" using assms(1) Some by (auto simp: pool_inv_def keyed_def)
  have "Transactions p (Hash tx2) = Some tx" "From tx2 = From tx"
    using Some h by (simp_all add: tx2_def stamp_removed_same)
  then obtain p1 where p1: "removeTx p tx2 = Inr p1" "pool_inv p1"
    using removeTx_inv[OF assms(1), of tx2 tx] by blast
  then have "p' = PublishRemoved cfg p1 tx2"
    using assms(2) Some by (simp add: txRemover_alt tx2_def)
  then show ?thesis using p1(2) by (simp add: PublishRemoved_inv)
qed

lemma serve_inv:
  assumes "pool_inv p" "serve cfg cap p req = Inr (ok, p')"
  shows "pool_inv p'"
proof (cases req)
  case (AddRequest tx now)
  then obtain tx' where "txAdder cfg cap now p tx = Inr (ok, tx', p')"
    using assms(2) by (auto split: sum.splits)
  then show ?thesis using assms(1) by (rule txAdder_inv[rotated])
next
  case (RemoveRequest txStat now)
  then have "txRemover cfg now p txStat = Inr (ok, p')" using assms(2) by simp
  then show ?thesis using assms(1) by (rule txRemover_inv[rotated])
qed

lemma Start_inv: "pool_inv p \<Longrightarrow> Start cfg cap p reqs = Inr p' \<Longrightarrow> pool_inv p'"
proof (induction reqs arbitrary: p)
  case Nil
  then show ?case by simp
next
  case (Cons req reqs)
  from Cons.prems(2) obtain ok p1 where s: "serve cfg cap p req = Inr (ok, p1)"
    and r: "Start cfg cap p1 reqs = Inr p'"
    by (auto split: sum.splits)
  have "pool_inv p1" by (rule serve_inv[OF Cons.prems(1) s])
  then show ?case using r by (rule Cons.IH)
qed

lemma empty_pool_inv: "pool_inv empty_pool"
  by (simp add: pool_inv_def empty_pool_def keyed_def asc_ok_def desc_ok_def senders_ok_def tombs_ok_def)

lemma gas_sorted_Insert:
  "gas_sorted xs \<Longrightarrow> gas_sorted (Insert asc_before xs tx)"
  unfolding gas_sorted_def
  by (induction xs) (auto simp: set_Insert asc_before_def)

lemma Start_append:
  "Start cfg cap p (xs @ ys) =
     (case Start cfg cap p xs of Inl e \<Rightarrow> Inl e | Inr p' \<Rightarrow> Start cfg cap p' ys)"
  by (induction xs arbitrary: p) (auto split: sum.splits)

lemma pool_dom_asc: "pool_inv p \<Longrightarrow> Hash ` set (AscTxsByGasPrice p) = dom (Transactions p)"
  by (simp add: pool_inv_def asc_ok_def keyed_hash_image)

lemma pool_card: "pool_inv p \<Longrightarrow> card (dom (Transactions p)) = length (AscTxsByGasPrice p)"
proof -
  assume inv: "pool_inv p"
  have "distinct (map Hash (AscTxsByGasPrice p))" using inv by (simp add: pool_inv_def asc_ok_def)
  then have "card (set (map Hash (AscTxsByGasPrice p))) = length (map Hash (AscTxsByGasPrice p))"
    by (rule distinct_card)
  then show ?thesis using pool_dom_asc[OF inv] by simp
qed

lemma txAdder_no_drop:
  assumes "Hash tx \<notin> dom (Transactions p)" "Hash tx \<notin> dom (DroppedTxs p)" "\<not> needToDropTxs cap p"
  shows "txAdder cfg cap now p tx =
     Inr (True, tx\<lparr>PendingFrom := now, Pool := ''pending''\<rparr>,
          PublishAdded cfg (addTx p (tx\<lparr>PendingFrom := now, Pool := ''pending''\<rparr>))
            (tx\<lparr>PendingFrom := now, Pool := ''pending''\<rparr>))"
  using assms by (simp add: txAdder_def Let_def)

lemma txAdder_drop:
  assumes "Hash tx \<notin> dom (Transactions p)" "Hash tx \<notin> dom (DroppedTxs p)" "needToDropTxs cap p"
    "AscTxsByGasPrice p = v # rest" "dropTx p v = Inr p1"
  shows "txAdder cfg cap now p tx =
     Inr (True, tx\<lparr>PendingFrom := now, Pool := ''pending''\<rparr>,
          PublishAdded cfg (addTx p1 (tx\<lparr>PendingFrom := now, Pool := ''pending''\<rparr>))
            (tx\<lparr>PendingFrom := now, Pool := ''pending''\<rparr>))"
  using assms by (simp add: txAdder_def Let_def pickTxWithLowestGasPrice_def)

lemma PublishAdded_fields:
  "Transactions (PublishAdded cfg p m) = Transactions p"
  "AscTxsByGasPrice (PublishAdded cfg p m) = AscTxsByGasPrice p"
  "DescTxsByGasPrice (PublishAdded cfg p m) = DescTxsByGasPrice p"
  "TxsFromAddress (PublishAdded cfg p m) = TxsFromAddress p"
  "DroppedTxs (PublishAdded cfg p m) = DroppedTxs p"
  by (simp_all add: PublishAdded_def)

lemma length_Insert: "length (Insert b xs tx) = Suc (length xs)"
  by (induction xs) auto

lemma dropTx_fields:
  assumes "dropTx p v = Inr p1"
  shows "AscTxsByGasPrice p1 = Remove (AscTxsByGasPrice p) v"
    and "Transactions p1 = (Transactions p)(Hash v := None)"
    and "DroppedTxs p1 = (DroppedTxs p)(Hash v \<mapsto> True)"
proof -
  obtain p0 where p0: "removeTx p v = Inr p0" and p1: "p1 = p0\<lparr>DroppedTxs := (DroppedTxs p0)(Hash v \<mapsto> True)\<rparr>"
    using assms by (auto simp: dropTx_def split: sum.splits)
  note f = removeTx_fields[OF p0]
  show "AscTxsByGasPrice p1 = Remove (AscTxsByGasPrice p) v" by (simp add: p1 f(2))
  show "Transactions p1 = (Transactions p)(Hash v := None)" by (simp add: p1 f(1))
  show "DroppedTxs p1 = (DroppedTxs p)(Hash v \<mapsto> True)" by (simp add: p1 f(5))
qed

lemma add_step:
  assumes f: "filled C txs p" and C: "1 \<le> C"
    and fresh: "Hash x \<notin> Hash ` set txs"
    and top: "\<forall>t \<in> set txs. GasPrice t \<le> GasPrice x"
    and dist: "distinct (map Hash txs)"
  shows "\<exists>p'. serve cfg C p (AddRequest x now) = Inr (True, p') \<and> filled C (txs @ [x]) p'"
proof -
  let ?x = "x\<lparr>PendingFrom := now, Pool := ''pending''\<rparr>"
  let ?asc = "AscTxsByGasPrice p"
  have inv: "pool_inv p" and srt: "gas_sorted ?asc"
    and len: "length ?asc = min (length txs) C"
    and doms: "dom (Transactions p) \<union> dom (DroppedTxs p) = Hash ` set txs"
    and orig: "\<forall>k \<in> set ?asc. \<exists>t \<in> set txs. Hash t = Hash k \<and> GasPrice t = GasPrice k"
    and low: "\<forall>k \<in> set ?asc. \<forall>d \<in> set txs. Hash d \<in> dom (DroppedTxs p) \<longrightarrow> GasPrice d \<le> GasPrice k"
    using f by (simp_all add: filled_def)
  have nT: "Hash x \<notin> dom (Transactions p)" and nD: "Hash x \<notin> dom (DroppedTxs p)"
    using fresh doms by auto
  have tomb: "dom (DroppedTxs p) \<inter> dom (Transactions p) = {}"
    using inv by (simp add: pool_inv_def tombs_ok_def)
  show ?thesis
  proof (cases "needToDropTxs C p")
    case False
    let ?p' = "PublishAdded cfg (addTx p ?x) ?x"
    have run: "serve cfg C p (AddRequest x now) = Inr (True, ?p')"
      by (simp add: txAdder_no_drop[OF nT nD False])
    have lt: "length ?asc < C" using False by (simp add: needToDropTxs_def)
    then have lxs: "length ?asc = length txs" using len by simp
    have inv': "pool_inv ?p'"
      using addTx_inv[OF inv, of ?x] nT nD by (simp add: PublishAdded_inv)
    have asc': "AscTxsByGasPrice ?p' = Insert asc_before ?asc ?x"
      by (simp add: PublishAdded_fields addTx_fields)
    have "filled C (txs @ [x]) ?p'"
      unfolding filled_def
    proof (intro conjI)
      show "pool_inv ?p'" by (rule inv')
      show "gas_sorted (AscTxsByGasPrice ?p')" by (simp add: asc' gas_sorted_Insert srt)
      show "length (AscTxsByGasPrice ?p') = min (length (txs @ [x])) C"
        using lt lxs by (simp add: asc' length_Insert)
      show "dom (Transactions ?p') \<union> dom (DroppedTxs ?p') = Hash ` set (txs @ [x])"
        using doms by (auto simp: PublishAdded_fields addTx_fields)
      show "\<forall>k \<in> set (AscTxsByGasPrice ?p'). \<exists>t \<in> set (txs @ [x]). Hash t = Hash k \<and> GasPrice t = GasPrice k"
        using orig by (auto simp: asc' set_Insert)
      show "\<forall>k \<in> set (AscTxsByGasPrice ?p'). \<forall>d \<in> set (txs @ [x]).
          Hash d \<in> dom (DroppedTxs ?p') \<longrightarrow> GasPrice d \<le> GasPrice k"
        using low top nD by (auto simp: asc' set_Insert PublishAdded_fields addTx_fields)
    qed
    then show ?thesis using run by blast
  next
    case True
    then have ge: "C \<le> length ?asc" by (simp add: needToDropTxs_def)
    then obtain v rest where asc: "?asc = v # rest" using C by (cases ?asc) auto
    have lenC: "length ?asc = C" using ge len by simp
    have v: "Transactions p (Hash v) = Some v" by (rule asc_head_in_pool[OF inv asc])
    obtain p1 where p1: "dropTx p v = Inr p1" "pool_inv p1"
      using dropTx_inv[OF inv v] by blast
    note d = dropTx_fields[OF p1(1)]
    have asc1: "AscTxsByGasPrice p1 = rest" by (simp add: d(1) asc)
    let ?p' = "PublishAdded cfg (addTx p1 ?x) ?x"
    have run: "serve cfg C p (AddRequest x now) = Inr (True, ?p')"
      by (simp add: txAdder_drop[OF nT nD True asc p1(1)])
    have ne: "Hash x \<noteq> Hash v" using nT v by auto
    have inv': "pool_inv ?p'"
      using addTx_inv[OF p1(2), of ?x] nT nD ne by (simp add: PublishAdded_inv d)
    have asc': "AscTxsByGasPrice ?p' = Insert asc_before rest ?x"
      by (simp add: PublishAdded_fields addTx_fields asc1)
    have T': "Transactions ?p' = ((Transactions p)(Hash v := None))(Hash x \<mapsto> ?x)"
      by (simp add: PublishAdded_fields addTx_fields d)
    have D': "DroppedTxs ?p' = (DroppedTxs p)(Hash v \<mapsto> True)"
      by (simp add: PublishAdded_fields addTx_fields d)
    have vT: "Hash v \<in> dom (Transactions p)" using v by auto
    have srt_rest: "gas_sorted rest" and v_low: "\<forall>k \<in> set rest. GasPrice v \<le> GasPrice k"
      using srt by (simp_all add: asc gas_sorted_def)
    obtain tv where tv: "tv \<in> set txs" "Hash tv = Hash v" "GasPrice tv = GasPrice v"
      using orig by (auto simp: asc)
    have same: "GasPrice d = GasPrice v" if "d \<in> set txs" "Hash d = Hash v" for d
    proof -
      have inj: "inj_on Hash (set txs)" using dist by (simp add: distinct_map)
      have "d = tv" using inj_onD[OF inj, of d tv] that tv by simp
      then show ?thesis using tv by simp
    qed
    have "filled C (txs @ [x]) ?p'"
      unfolding filled_def
    proof (intro conjI)
      show "pool_inv ?p'" by (rule inv')
      show "gas_sorted (AscTxsByGasPrice ?p')" by (simp add: asc' gas_sorted_Insert srt_rest)
      show "length (AscTxsByGasPrice ?p') = min (length (txs @ [x])) C"
        using lenC len by (simp add: asc' length_Insert asc)
      show "dom (Transactions ?p') \<union> dom (DroppedTxs ?p') = Hash ` set (txs @ [x])"
        using doms vT by (auto simp: T' D')
      show "\<forall>k \<in> set (AscTxsByGasPrice ?p'). \<exists>t \<in> set (txs @ [x]). Hash t = Hash k \<and> GasPrice t = GasPrice k"
        using orig by (auto simp: asc' set_Insert asc)
      show "\<forall>k \<in> set (AscTxsByGasPrice ?p'). \<forall>d \<in> set (txs @ [x]).
          Hash d \<in> dom (DroppedTxs ?p') \<longrightarrow> GasPrice d \<le> GasPrice k"
      proof (intro ballI impI)
        fix k d assume k: "k \<in> set (AscTxsByGasPrice ?p')" and dd: "d \<in> set (txs @ [x])"
          and dr: "Hash d \<in> dom (DroppedTxs ?p')"
        have dtx: "d \<in> set txs" using dd dr nD ne by (auto simp: D')
        have dv: "GasPrice d \<le> GasPrice v"
        proof (cases "Hash d = Hash v")
          case True
          then show ?thesis using same[OF dtx] by simp
        next
          case False
          then have "Hash d \<in> dom (DroppedTxs p)" using dr by (auto simp: D')
          then show ?thesis using low dtx by (auto simp: asc)
        qed
        from k have "k = ?x \<or> k \<in> set rest" by (simp add: asc' set_Insert)
        then show "GasPrice d \<le> GasPrice k"
        proof
          assume "k = ?x"
          then show ?thesis using top dtx by simp
        next
          assume "k \<in> set rest"
          then show ?thesis using v_low dv by force
        qed
      qed
    qed
    then show ?thesis using run by blast
  qed
qed

lemma filled_empty: "filled C [] empty_pool"
  using empty_pool_inv by (simp add: filled_def gas_sorted_def empty_pool_def)

lemma adds_snoc: "adds (xs @ [(x, now)]) = adds xs @ [AddRequest x now]"
  by (simp add: adds_def)

lemma adds_run:
  assumes "1 \<le> C"
  shows "distinct (map Hash (map fst xs)) \<Longrightarrow> gas_sorted (map fst xs) \<Longrightarrow>
     \<exists>p. Start cfg C empty_pool (adds xs) = Inr p \<and> filled C (map fst xs) p"
proof (induction xs rule: rev_induct)
  case Nil
  then show ?case by (simp add: adds_def filled_empty)
next
  case (snoc a xs)
  obtain x now where a: "a = (x, now)" by (cases a)
  have d: "distinct (map Hash (map fst xs))" and fresh: "Hash x \<notin> Hash ` set (map fst xs)"
    using snoc.prems(1) by (auto simp: a)
  have s: "gas_sorted (map fst xs)" and top: "\<forall>t \<in> set (map fst xs). GasPrice t \<le> GasPrice x"
    using snoc.prems(2) by (auto simp: a gas_sorted_def sorted_wrt_append)
  obtain p where p: "Start cfg C empty_pool (adds xs) = Inr p" "filled C (map fst xs) p"
    using snoc.IH[OF d s] by blast
  obtain p' where p': "serve cfg C p (AddRequest x now) = Inr (True, p')"
    "filled C (map fst xs @ [x]) p'"
    using add_step[OF p(2) assms fresh top d] by blast
  have "Start cfg C empty_pool (adds (xs @ [a])) = Inr p'"
    by (simp add: a adds_snoc Start_append p(1) p'(1) del: serve.simps)
  then show ?case using p'(2) by (auto simp: a)
qed

lemmas pool_evals = txAdder_def txRemover_def addTx_def removeTx_def dropTx_def allocateFor_def hasBeenAllocatedFor_def needToDropTxs_def
  pickTxWithLowestGasPrice_def PublishAdded_def PublishRemoved_def empty_pool_def mk_tx_def asc_before_def
  desc_before_def sender_before_def Let_def GetPendingTxEntryPublishTopic_def GetPendingTxExitPublishTopic_def
  unset_def

lemma in_pool_indexed:
  assumes inv: "pool_inv p" and h: "Transactions p h = Some tx"
  shows "indexed_once p h"
proof -
  have k: "keyed p" and a: "asc_ok p" and d: "desc_ok p" and s: "senders_ok p"
    using inv by (simp_all add: pool_inv_def)
  have hh: "Hash tx = h" using k h by (auto simp: keyed_def)
  have r: "tx \<in> ran (Transactions p)" using h by (auto simp: ran_def)
  have "h \<in> Hash ` set (AscTxsByGasPrice p)" "h \<in> Hash ` set (DescTxsByGasPrice p)"
    using a d r hh by (auto simp: asc_ok_def desc_ok_def)
  then have c: "hash_count (AscTxsByGasPrice p) h = 1" "hash_count (DescTxsByGasPrice p) h = 1"
    using a d by (simp_all add: asc_ok_def desc_ok_def hash_count_distinct)
  obtain txs where txs: "TxsFromAddress p (From tx) = Some txs"
    using s r by (auto simp: senders_ok_def)
  then have "distinct (map Hash txs)" "tx \<in> set txs"
    using s r by (auto simp: senders_ok_def)
  then have "hash_count txs h = 1" using hh by (auto simp: hash_count_distinct)
  moreover have "tx \<in> set (AscTxsByGasPrice p)" using a r by (simp add: asc_ok_def)
  ultimately show ?thesis using c txs hh by (auto simp: indexed_once_def)
qed

lemma hash_count_pos: "hash_count txs h = 1 \<Longrightarrow> h \<in> Hash ` set txs"
  unfolding hash_count_def
  by (induction txs) (auto split: if_splits)

lemma hash_count_zero: "h \<notin> Hash ` set txs \<Longrightarrow> hash_count txs h = 0"
  unfolding hash_count_def by (induction txs) auto

lemma indexed_in_pool:
  assumes inv: "pool_inv p" and i: "indexed_once p h"
  shows "h \<in> dom (Transactions p)"
proof -
  have "h \<in> Hash ` set (AscTxsByGasPrice p)" using i by (simp add: indexed_once_def hash_count_pos)
  then show ?thesis using pool_dom_asc[OF inv] by simp
qed

lemma out_of_pool_unindexed:
  assumes inv: "pool_inv p" and h: "h \<notin> dom (Transactions p)"
  shows "unindexed p h"
proof -
  have k: "keyed p" and a: "asc_ok p" and d: "desc_ok p" and s: "senders_ok p"
    using inv by (simp_all add: pool_inv_def)
  have nr: "h \<notin> Hash ` ran (Transactions p)" using h keyed_hash_image[OF k] by simp
  have "hash_count (AscTxsByGasPrice p) h = 0" "hash_count (DescTxsByGasPrice p) h = 0"
    using a d nr by (simp_all add: asc_ok_def desc_ok_def hash_count_zero)
  moreover have "hash_count txs h = 0" if "TxsFromAddress p b = Some txs" for b txs
  proof -
    have "set txs \<subseteq> ran (Transactions p)" using s that by (auto simp: senders_ok_def)
    then have "h \<notin> Hash ` set txs" using nr by auto
    then show ?thesis by (rule hash_count_zero)
  qed
  ultimately show ?thesis by (simp add: unindexed_def)
qed

lemma pool_inv_invariants: "pool_inv p \<Longrightarrow> invariants_hold p"
  unfolding invariants_hold_def
proof (intro conjI allI impI)
  fix h assume inv: "pool_inv p"
  show "(h \<in> dom (Transactions p)) = indexed_once p h"
    using in_pool_indexed[OF inv] indexed_in_pool[OF inv] by auto
next
  fix h assume "pool_inv p" "h \<notin> dom (Transactions p)"
  then show "unindexed p h" by (rule out_of_pool_unindexed)
next
  fix h assume "pool_inv p" "h \<in> dom (DroppedTxs p)"
  then show "h \<notin> dom (Transactions p)" by (auto simp: pool_inv_def tombs_ok_def)
qed

lemma serve_total:
  assumes cap: "0 < cap" and inv: "pool_inv p"
  shows "\<exists>ok p'. serve cfg cap p req = Inr (ok, p')"
proof (cases req)
  case (AddRequest tx now)
  have "\<exists>ok tx' p'. txAdder cfg cap now p tx = Inr (ok, tx', p')"
  proof (cases "Hash tx \<in> dom (Transactions p) \<or> Hash tx \<in> dom (DroppedTxs p)")
    case True
    then show ?thesis using txAdder_known[OF True] by blast
  next
    case False
    then have n: "Hash tx \<notin> dom (Transactions p)" "Hash tx \<notin> dom (DroppedTxs p)" by simp_all
    show ?thesis
    proof (cases "needToDropTxs cap p")
      case False
      then show ?thesis using txAdder_no_drop[OF n False] by blast
    next
      case True
      then have "AscTxsByGasPrice p \<noteq> []" using cap by (auto simp: needToDropTxs_def)
      then obtain v rest where asc: "AscTxsByGasPrice p = v # rest"
        by (cases "AscTxsByGasPrice p") auto
      obtain p1 where "dropTx p v = Inr p1"
        using dropTx_inv[OF inv asc_head_in_pool[OF inv asc]] by blast
      then show ?thesis using txAdder_drop[OF n True asc] by blast
    qed
  qed
  then show ?thesis using AddRequest by (auto split: sum.splits)
next
  case (RemoveRequest txStat now)
  show ?thesis
  proof (cases "Transactions p (TxHash txStat)")
    case None
    then show ?thesis using RemoveRequest by (auto simp: txRemover_alt)
  next
    case (Some tx)
    have h: "Hash tx = TxHash txStat" using inv Some by (auto simp: pool_inv_def keyed_def)
    obtain p1 where "removeTx p (stamp_removed now (Status txStat) tx) = Inr p1"
      using removeTx_inv[OF inv, of "stamp_removed now (Status txStat) tx" tx] Some h
      by (auto simp: stamp_removed_same)
    then show ?thesis using RemoveRequest Some by (auto simp: txRemover_alt)
  qed
qed

lemma Start_total:
  assumes "0 < cap"
  shows "pool_inv p \<Longrightarrow> \<exists>q. Start cfg cap p reqs = Inr q"
proof (induction reqs arbitrary: p)
  case Nil
  then show ?case by simp
next
  case (Cons req reqs)
  obtain ok p1 where s: "serve cfg cap p req = Inr (ok, p1)"
    using serve_total[OF assms Cons.prems] by blast
  have "pool_inv p1" by (rule serve_inv[OF Cons.prems s])
  then obtain q where "Start cfg cap p1 reqs = Inr q" using Cons.IH by blast
  then show ?case using s by (simp del: serve.simps)
qed

lemma Start_prefix:
  assumes "Start cfg cap p reqs = Inr q"
  shows "\<exists>p'. Start cfg cap p (take n reqs) = Inr p'"
proof -
  have "Start cfg cap p (take n reqs @ drop n reqs) = Inr q" using assms by simp
  then show ?thesis unfolding Start_append by (auto split: sum.splits)
qed

subsection \<open>Rejected additions\<close>

text \<open>
  C4. A transaction whose hash is already a key of \<open>Transactions\<close>, or already in the
  \<open>DroppedTxs\<close> tombstone set, is refused: \<open>txAdder\<close> answers false, the transaction is
  handed back unstamped, and the pool (every index, the tombstones and the record of
  published messages) is exactly what it was.
\<close>

theorem txAdder_rejects_known_hash:
  assumes "Hash tx \<in> dom (Transactions p) \<or> Hash tx \<in> dom (DroppedTxs p)"
  shows "txAdder cfg cap now p tx = Inr (False, tx, p)"
  using assms by (auto simp: txAdder_def)

theorem txAdder_rejects_known_hash_witness:
  "Hash (mk_tx 1 7 10) \<in> dom (Transactions (addTx empty_pool (mk_tx 1 7 10))) \<and>
   txAdder unset 2 100 (addTx empty_pool (mk_tx 1 7 10)) (mk_tx 1 7 10) =
     Inr (False, mk_tx 1 7 10, addTx empty_pool (mk_tx 1 7 10)) \<and>
   Hash (mk_tx 1 7 10) \<in> dom (DroppedTxs tombstoned_pool) \<and>
   txAdder unset 2 100 tombstoned_pool (mk_tx 1 7 10) = Inr (False, mk_tx 1 7 10, tombstoned_pool)"
proof -
  have h: "Hash (mk_tx 1 7 10) \<in> dom (Transactions (addTx empty_pool (mk_tx 1 7 10)))"
    by (simp add: addTx_fields)
  have t: "Hash (mk_tx 1 7 10) \<in> dom (DroppedTxs tombstoned_pool)"
    by (simp add: tombstoned_pool_def mk_tx_def)
  show ?thesis
    using h t
      txAdder_rejects_known_hash[of "mk_tx 1 7 10" "addTx empty_pool (mk_tx 1 7 10)" unset 2 100]
      txAdder_rejects_known_hash[of "mk_tx 1 7 10" tombstoned_pool unset 2 100]
    by blast
qed

subsection \<open>Invariants after every request\<close>

text \<open>
  C1. Start the loop on the empty pool and serve any sequence of \<^verbatim>\<open>Add\<close> and \<^verbatim>\<open>Remove\<close>
  requests. With a capacity of at least one no request panics. Whenever the sequence is
  served without a panic, then after every request of it (after each of its prefixes) a
  hash is a key of \<open>Transactions\<close> if and only if it occurs exactly once in
  \<open>AscTxsByGasPrice\<close>, exactly once in \<open>DescTxsByGasPrice\<close> and exactly once in the
  \<open>TxsFromAddress\<close> list of its transaction's sender; a hash that is no key occurs in no
  index; and no hash of \<open>DroppedTxs\<close> is a key of \<open>Transactions\<close>.
\<close>

theorem pool_invariants_after_every_request:
  "(0 < cap \<longrightarrow> (\<exists>q. Start cfg cap empty_pool reqs = Inr q)) \<and>
   (\<forall>q. Start cfg cap empty_pool reqs = Inr q \<longrightarrow>
      (\<forall>n. \<exists>p. Start cfg cap empty_pool (take n reqs) = Inr p \<and> invariants_hold p))"
proof (intro conjI impI allI)
  assume "0 < cap"
  then show "\<exists>q. Start cfg cap empty_pool reqs = Inr q"
    using Start_total[OF _ empty_pool_inv] by blast
next
  fix q n assume "Start cfg cap empty_pool reqs = Inr q"
  then obtain p where p: "Start cfg cap empty_pool (take n reqs) = Inr p"
    using Start_prefix by blast
  have "pool_inv p" by (rule Start_inv[OF empty_pool_inv p])
  then show "\<exists>p. Start cfg cap empty_pool (take n reqs) = Inr p \<and> invariants_hold p"
    using p pool_inv_invariants by blast
qed

theorem pool_invariants_after_every_request_witness:
  "\<exists>p. Start unset 2 empty_pool demo_requests = Inr p \<and> invariants_hold p \<and>
     dom (Transactions p) = {2} \<and> dom (DroppedTxs p) = {1}"
proof -
  have run: "\<exists>p. Start unset 2 empty_pool demo_requests = Inr p \<and>
     dom (Transactions p) = {2} \<and> dom (DroppedTxs p) = {1}"
    by (auto simp: demo_requests_def pool_evals)
  then obtain p where p: "Start unset 2 empty_pool demo_requests = Inr p"
    "dom (Transactions p) = {2}" "dom (DroppedTxs p) = {1}" by blast
  have "\<exists>p'. Start unset 2 empty_pool (take (length demo_requests) demo_requests) = Inr p' \<and>
      invariants_hold p'"
    using pool_invariants_after_every_request[of 2 unset demo_requests] p(1) by blast
  then have "invariants_hold p" using p(1) by simp
  then show ?thesis using p by blast
qed

subsection \<open>Eviction keeps the highest gas prices\<close>

lemma filled_kept_gas:
  assumes f: "filled C txs p" and dist: "distinct (map Hash txs)"
    and a: "a \<in> set txs" "Hash a \<in> dom (Transactions p)"
    and b: "b \<in> set txs" "Hash b \<notin> dom (Transactions p)"
  shows "GasPrice b \<le> GasPrice a"
proof -
  have inv: "pool_inv p" using f by (simp add: filled_def)
  obtain k where k: "k \<in> set (AscTxsByGasPrice p)" "Hash k = Hash a"
    using a(2) pool_dom_asc[OF inv] by force
  obtain t where t: "t \<in> set txs" "Hash t = Hash k" "GasPrice t = GasPrice k"
    using f k(1) by (auto simp: filled_def)
  have inj: "inj_on Hash (set txs)" using dist by (simp add: distinct_map)
  have "t = a" using inj_onD[OF inj, of t a] t k a by simp
  then have ga: "GasPrice k = GasPrice a" using t by simp
  have "Hash b \<in> dom (DroppedTxs p)" using f b by (auto simp: filled_def)
  then have "GasPrice b \<le> GasPrice k" using f k(1) b(1) by (auto simp: filled_def)
  then show ?thesis using ga by simp
qed

lemma filled_dropped_card:
  assumes f: "filled C txs p" and dist: "distinct (map Hash txs)"
  shows "card (dom (DroppedTxs p)) = length txs - length (AscTxsByGasPrice p)"
proof -
  have inv: "pool_inv p" using f by (simp add: filled_def)
  have un: "dom (Transactions p) \<union> dom (DroppedTxs p) = Hash ` set txs"
    using f by (simp add: filled_def)
  have dj: "dom (Transactions p) \<inter> dom (DroppedTxs p) = {}"
    using inv by (auto simp: pool_inv_def tombs_ok_def)
  have fin: "finite (dom (Transactions p))" "finite (dom (DroppedTxs p))"
    using un by (metis finite_Un finite_imageI finite_set)+
  have "card (Hash ` set txs) = length txs"
    using dist distinct_card[of "map Hash txs"] by simp
  then have "card (dom (Transactions p)) + card (dom (DroppedTxs p)) = length txs"
    using card_Un_disjoint[OF fin dj] un by simp
  then show ?thesis using pool_card[OF inv] by simp
qed

text \<open>
  C2, amended. For every capacity \<open>C\<close> of at least one and every sequence of more than
  \<open>C\<close> \<^verbatim>\<open>Add\<close>s of transactions with distinct hashes, presented to the empty pool in
  gas-price order: every request is served, exactly \<open>C\<close> transactions remain, no
  transaction that was evicted pays more than one that remains, and the hashes of all the
  others, \<open>N - C\<close> of them, are in \<open>DroppedTxs\<close>.
\<close>

theorem eviction_keeps_highest_gas_prices:
  assumes "1 \<le> C" and "C < length xs"
    and "distinct (map Hash (map fst xs))"
    and "gas_sorted (map fst xs)"
  shows "\<exists>p. Start cfg C empty_pool (adds xs) = Inr p \<and>
           card (dom (Transactions p)) = C \<and>
           length (AscTxsByGasPrice p) = C \<and>
           dom (Transactions p) \<subseteq> Hash ` set (map fst xs) \<and>
           (\<forall>a \<in> set (map fst xs). \<forall>b \<in> set (map fst xs).
              Hash a \<in> dom (Transactions p) \<and> Hash b \<notin> dom (Transactions p)
                \<longrightarrow> GasPrice b \<le> GasPrice a) \<and>
           (\<forall>b \<in> set (map fst xs).
              Hash b \<notin> dom (Transactions p) \<longrightarrow> Hash b \<in> dom (DroppedTxs p)) \<and>
           card (dom (DroppedTxs p)) = length xs - C"
proof -
  obtain p where run: "Start cfg C empty_pool (adds xs) = Inr p"
    and f: "filled C (map fst xs) p"
    using adds_run[OF assms(1) assms(3) assms(4)] by blast
  have inv: "pool_inv p" using f by (simp add: filled_def)
  have len: "length (AscTxsByGasPrice p) = C" using f assms(2) by (simp add: filled_def)
  have un: "dom (Transactions p) \<union> dom (DroppedTxs p) = Hash ` set (map fst xs)"
    using f by (simp add: filled_def)
  have 1: "card (dom (Transactions p)) = C" using pool_card[OF inv] len by simp
  have 2: "dom (Transactions p) \<subseteq> Hash ` set (map fst xs)" using un by blast
  have 3: "\<forall>a \<in> set (map fst xs). \<forall>b \<in> set (map fst xs).
              Hash a \<in> dom (Transactions p) \<and> Hash b \<notin> dom (Transactions p)
                \<longrightarrow> GasPrice b \<le> GasPrice a"
    using filled_kept_gas[OF f assms(3)] by blast
  have 4: "\<forall>b \<in> set (map fst xs).
              Hash b \<notin> dom (Transactions p) \<longrightarrow> Hash b \<in> dom (DroppedTxs p)"
    using un by blast
  have 5: "card (dom (DroppedTxs p)) = length xs - C"
    using filled_dropped_card[OF f assms(3)] len by simp
  show ?thesis using run 1 len 2 3 4 5 by blast
qed

theorem eviction_keeps_highest_gas_prices_witness:
  "\<exists>p. Start unset 2 empty_pool (adds scenario3) = Inr p \<and>
        card (dom (Transactions p)) = 2 \<and>
        dom (Transactions p) = {2, 3} \<and>
        dom (DroppedTxs p) = {1}"
proof -
  have h: "1 \<le> (2::nat)" "2 < length scenario3" "distinct (map Hash (map fst scenario3))"
    "gas_sorted (map fst scenario3)"
    by (simp_all add: scenario3_def mk_tx_def gas_sorted_def)
  obtain p where p: "Start unset 2 empty_pool (adds scenario3) = Inr p"
    "card (dom (Transactions p)) = 2"
    using eviction_keeps_highest_gas_prices[OF h, of unset] by blast
  have "\<exists>q. Start unset 2 empty_pool (adds scenario3) = Inr q \<and>
      dom (Transactions q) = {2, 3} \<and> dom (DroppedTxs q) = {1}"
    by (auto simp: scenario3_def adds_def pool_evals)
  then show ?thesis using p by auto
qed

text \<open>
  At capacity 0 the claim fails as stated: the first \<^verbatim>\<open>Add\<close> asks for the first element of
  the empty ascending list, and the loop panics.
\<close>

theorem eviction_capacity_zero_counterexample:
  "Start unset 0 empty_pool (adds [(mk_tx 1 7 10, 100)]) = Inl IndexOutOfRange"
  by (simp add: adds_def pool_evals)

subsection \<open>Tombstones\<close>

lemma serve_tombstones:
  assumes "serve cfg cap p req = Inr (ok, p')"
  shows "DroppedTxs p' = DroppedTxs p \<or> (\<exists>h. DroppedTxs p' = (DroppedTxs p)(h \<mapsto> True))"
proof (cases req)
  case (AddRequest tx now)
  then obtain tx' where t: "txAdder cfg cap now p tx = Inr (ok, tx', p')"
    using assms by (auto split: sum.splits)
  show ?thesis
  proof (cases "Hash tx \<in> dom (Transactions p) \<or> Hash tx \<in> dom (DroppedTxs p)")
    case True
    then show ?thesis using t txAdder_known[OF True, of cfg cap now] by simp
  next
    case False
    then have n: "Hash tx \<notin> dom (Transactions p)" "Hash tx \<notin> dom (DroppedTxs p)" by simp_all
    show ?thesis
    proof (cases "needToDropTxs cap p")
      case False
      then show ?thesis using t txAdder_no_drop[OF n False, of cfg now]
        by (auto simp: PublishAdded_fields addTx_fields)
    next
      case True
      show ?thesis
      proof (cases "AscTxsByGasPrice p")
        case Nil
        then show ?thesis using t n True by (simp add: txAdder_def pickTxWithLowestGasPrice_def)
      next
        case (Cons v rest)
        show ?thesis
        proof (cases "dropTx p v")
          case (Inl e)
          then show ?thesis using t n True Cons
            by (simp add: txAdder_def pickTxWithLowestGasPrice_def)
        next
          case (Inr p1)
          then show ?thesis using t txAdder_drop[OF n True Cons Inr, of cfg now] dropTx_fields(3)[OF Inr]
            by (auto simp: PublishAdded_fields addTx_fields)
        qed
      qed
    qed
  qed
next
  case (RemoveRequest txStat now)
  then have "DroppedTxs p' = DroppedTxs p"
    using assms
    by (auto simp: txRemover_alt PublishRemoved_def dest: removeTx_fields(5) split: option.splits sum.splits)
  then show ?thesis by simp
qed

lemma dom_tombstone_step:
  assumes "D' = D \<or> (\<exists>h. D' = D(h \<mapsto> True))" "finite (dom D)"
  shows "dom D \<subseteq> dom D' \<and> finite (dom D') \<and> card (dom D') \<le> Suc (card (dom D))"
proof -
  from assms(1) show ?thesis
  proof
    assume "D' = D"
    then show ?thesis using assms(2) by simp
  next
    assume "\<exists>h. D' = D(h \<mapsto> True)"
    then obtain h where "D' = D(h \<mapsto> True)" by blast
    then have "dom D' = insert h (dom D)" by simp
    then show ?thesis using assms(2) by (auto simp: card_insert_if)
  qed
qed

lemma Start_tombstones:
  "Start cfg cap p reqs = Inr q \<Longrightarrow> finite (dom (DroppedTxs p)) \<Longrightarrow>
     dom (DroppedTxs p) \<subseteq> dom (DroppedTxs q) \<and> finite (dom (DroppedTxs q)) \<and>
     card (dom (DroppedTxs q)) \<le> card (dom (DroppedTxs p)) + length reqs"
proof (induction reqs arbitrary: p)
  case Nil
  then show ?case by simp
next
  case (Cons req reqs)
  from Cons.prems(1) obtain ok p1 where s: "serve cfg cap p req = Inr (ok, p1)"
    and r: "Start cfg cap p1 reqs = Inr q"
    by (auto split: sum.splits)
  have st: "dom (DroppedTxs p) \<subseteq> dom (DroppedTxs p1) \<and> finite (dom (DroppedTxs p1)) \<and>
      card (dom (DroppedTxs p1)) \<le> Suc (card (dom (DroppedTxs p)))"
    by (rule dom_tombstone_step[OF serve_tombstones[OF s] Cons.prems(2)])
  then have ih: "dom (DroppedTxs p1) \<subseteq> dom (DroppedTxs q) \<and> finite (dom (DroppedTxs q)) \<and>
     card (dom (DroppedTxs q)) \<le> card (dom (DroppedTxs p1)) + length reqs"
    using Cons.IH[OF r] by blast
  have "dom (DroppedTxs p) \<subseteq> dom (DroppedTxs q)" using st ih by blast
  moreover have "card (dom (DroppedTxs q)) \<le> card (dom (DroppedTxs p)) + length (req # reqs)"
    using st ih by simp
  ultimately show ?case using ih by blast
qed

lemma serve_evicts:
  assumes inv: "pool_inv p" and s: "serve cfg cap p req = Inr (ok, p')"
  shows "DroppedTxs p' = DroppedTxs p \<or>
         (\<exists>tx now victim. req = AddRequest tx now \<and> ok \<and> needToDropTxs cap p \<and>
            pickTxWithLowestGasPrice p = Inr victim \<and>
            Transactions p (Hash victim) = Some victim \<and> Transactions p' (Hash victim) = None \<and>
            Hash victim \<notin> dom (DroppedTxs p) \<and>
            DroppedTxs p' = (DroppedTxs p)(Hash victim \<mapsto> True))"
proof (cases req)
  case (AddRequest tx now)
  then obtain tx' where t: "txAdder cfg cap now p tx = Inr (ok, tx', p')"
    using s by (auto split: sum.splits)
  show ?thesis
  proof (cases "Hash tx \<in> dom (Transactions p) \<or> Hash tx \<in> dom (DroppedTxs p)")
    case True
    then show ?thesis using t txAdder_known[OF True, of cfg cap now] by simp
  next
    case False
    then have n: "Hash tx \<notin> dom (Transactions p)" "Hash tx \<notin> dom (DroppedTxs p)" by simp_all
    show ?thesis
    proof (cases "needToDropTxs cap p")
      case False
      then show ?thesis using t txAdder_no_drop[OF n False, of cfg now]
        by (auto simp: PublishAdded_fields addTx_fields)
    next
      case True
      show ?thesis
      proof (cases "AscTxsByGasPrice p")
        case Nil
        then show ?thesis using t n True by (simp add: txAdder_def pickTxWithLowestGasPrice_def)
      next
        case (Cons v rest)
        have pick: "pickTxWithLowestGasPrice p = Inr v"
          by (simp add: pickTxWithLowestGasPrice_def Cons)
        have inp: "Transactions p (Hash v) = Some v" by (rule asc_head_in_pool[OF inv Cons])
        have ne: "Hash tx \<noteq> Hash v" using n(1) inp by auto
        have nt: "Hash v \<notin> dom (DroppedTxs p)"
          using inv inp by (auto simp: pool_inv_def tombs_ok_def)
        show ?thesis
        proof (cases "dropTx p v")
          case (Inl e)
          then show ?thesis using t n True Cons
            by (simp add: txAdder_def pickTxWithLowestGasPrice_def)
        next
          case (Inr p1)
          let ?tx = "tx\<lparr>PendingFrom := now, Pool := ''pending''\<rparr>"
          have r: "ok" "p' = PublishAdded cfg (addTx p1 ?tx) ?tx"
            using t txAdder_drop[OF n True Cons Inr, of cfg now] by auto
          have d: "DroppedTxs p' = (DroppedTxs p)(Hash v \<mapsto> True)"
            by (simp add: r(2) PublishAdded_fields addTx_fields dropTx_fields(3)[OF Inr])
          have g: "Transactions p' (Hash v) = None"
            using ne by (simp add: r(2) PublishAdded_fields addTx_fields dropTx_fields(2)[OF Inr])
          have "\<exists>tx now victim. req = AddRequest tx now \<and> ok \<and> needToDropTxs cap p \<and>
            pickTxWithLowestGasPrice p = Inr victim \<and>
            Transactions p (Hash victim) = Some victim \<and> Transactions p' (Hash victim) = None \<and>
            Hash victim \<notin> dom (DroppedTxs p) \<and>
            DroppedTxs p' = (DroppedTxs p)(Hash victim \<mapsto> True)"
            using AddRequest r(1) True pick inp g nt d by blast
          then show ?thesis by (rule disjI2)
        qed
      qed
    qed
  qed
next
  case (RemoveRequest txStat now)
  then have "DroppedTxs p' = DroppedTxs p"
    using s
    by (auto simp: txRemover_alt PublishRemoved_def dest: removeTx_fields(5) split: option.splits sum.splits)
  then show ?thesis by (rule disjI1)
qed

text \<open>
  C7, amended. Take any run of \<^verbatim>\<open>Add\<close> and \<^verbatim>\<open>Remove\<close> requests that is served from the empty
  pool without a panic, and any request \<open>req\<close> of it, served in the pool \<open>p\<close> and leaving
  the pool \<open>p'\<close>. Either \<open>req\<close> leaves \<open>DroppedTxs\<close> as it was, or it is an \<^verbatim>\<open>Add\<close> that is
  accepted, finds the pool full, and adds exactly one hash to \<open>DroppedTxs\<close>: that of the
  transaction it evicts, the head of \<open>AscTxsByGasPrice\<close>, which was in \<open>Transactions\<close>
  and no tombstone before and is no longer in \<open>Transactions\<close> after. No hash leaves
  \<open>DroppedTxs\<close>, neither at this request nor in the rest of the run, and at the end of the
  run it holds at most as many hashes as requests were served.
\<close>

theorem tombstones_only_grow:
  assumes "Start cfg cap empty_pool (reqs @ req # later) = Inr q"
  shows "\<exists>p ok p'. Start cfg cap empty_pool reqs = Inr p \<and> serve cfg cap p req = Inr (ok, p') \<and>
           (DroppedTxs p' = DroppedTxs p \<or>
            (\<exists>tx now victim. req = AddRequest tx now \<and> ok \<and> needToDropTxs cap p \<and>
               pickTxWithLowestGasPrice p = Inr victim \<and>
               Transactions p (Hash victim) = Some victim \<and> Transactions p' (Hash victim) = None \<and>
               Hash victim \<notin> dom (DroppedTxs p) \<and>
               DroppedTxs p' = (DroppedTxs p)(Hash victim \<mapsto> True))) \<and>
           dom (DroppedTxs p) \<subseteq> dom (DroppedTxs p') \<and>
           dom (DroppedTxs p') \<subseteq> dom (DroppedTxs q) \<and>
           card (dom (DroppedTxs p')) \<le> Suc (card (dom (DroppedTxs p))) \<and>
           card (dom (DroppedTxs q)) \<le> length (reqs @ req # later)"
proof -
  obtain p where p: "Start cfg cap empty_pool reqs = Inr p"
    and r0: "Start cfg cap p (req # later) = Inr q"
    using assms unfolding Start_append by (auto split: sum.splits)
  obtain ok p' where s: "serve cfg cap p req = Inr (ok, p')" and r: "Start cfg cap p' later = Inr q"
    using r0 by (auto split: sum.splits)
  have inv: "pool_inv p" by (rule Start_inv[OF empty_pool_inv p])
  have e: "finite (dom (DroppedTxs empty_pool))" "card (dom (DroppedTxs empty_pool)) = 0"
    by (simp_all add: empty_pool_def)
  have fp: "finite (dom (DroppedTxs p))" using Start_tombstones[OF p e(1)] by blast
  have st: "dom (DroppedTxs p) \<subseteq> dom (DroppedTxs p') \<and> finite (dom (DroppedTxs p')) \<and>
      card (dom (DroppedTxs p')) \<le> Suc (card (dom (DroppedTxs p)))"
    by (rule dom_tombstone_step[OF serve_tombstones[OF s] fp])
  have sq: "dom (DroppedTxs p') \<subseteq> dom (DroppedTxs q)" using Start_tombstones[OF r] st by blast
  have cq: "card (dom (DroppedTxs q)) \<le> length (reqs @ req # later)"
    using Start_tombstones[OF assms e(1)] e(2) by simp
  note ev = serve_evicts[OF inv s]
  show ?thesis
    apply (rule exI[of _ p], rule exI[of _ ok], rule exI[of _ p'])
    using p s ev st sq cq by (intro conjI) simp_all
qed

theorem tombstones_only_grow_witness:
  "\<exists>p ok p' q. Start unset 1 empty_pool (adds (take 2 four_adds)) = Inr p \<and>
      serve unset 1 p (AddRequest (mk_tx 3 8 30) 102) = Inr (ok, p') \<and>
      Start unset 1 empty_pool (adds (take 2 four_adds) @ AddRequest (mk_tx 3 8 30) 102 #
         adds (drop 3 four_adds)) = Inr q \<and>
      (DroppedTxs p' = DroppedTxs p \<or>
       (\<exists>tx now victim. AddRequest (mk_tx 3 8 30) 102 = AddRequest tx now \<and> ok \<and>
          needToDropTxs 1 p \<and> pickTxWithLowestGasPrice p = Inr victim \<and>
          Transactions p (Hash victim) = Some victim \<and> Transactions p' (Hash victim) = None \<and>
          Hash victim \<notin> dom (DroppedTxs p) \<and>
          DroppedTxs p' = (DroppedTxs p)(Hash victim \<mapsto> True))) \<and>
      dom (DroppedTxs p) \<subseteq> dom (DroppedTxs p') \<and>
      dom (DroppedTxs p') \<subseteq> dom (DroppedTxs q) \<and>
      card (dom (DroppedTxs p')) \<le> Suc (card (dom (DroppedTxs p))) \<and>
      card (dom (DroppedTxs q)) \<le> 4"
proof -
  obtain q where q: "Start unset 1 empty_pool (adds (take 2 four_adds) @
      AddRequest (mk_tx 3 8 30) 102 # adds (drop 3 four_adds)) = Inr q"
    using Start_total[OF _ empty_pool_inv, of 1] by auto
  have len: "length (adds (take 2 four_adds) @ AddRequest (mk_tx 3 8 30) 102 #
      adds (drop 3 four_adds)) = 4"
    by (simp add: adds_def four_adds_def)
  show ?thesis using tombstones_only_grow[OF q] q unfolding len by blast
qed

text \<open>
  The claim fails as stated: at capacity 1, four additions in gas-price order leave three
  tombstones, more than twice the capacity.
\<close>

theorem tombstones_exceed_twice_capacity_counterexample:
  "tombstone_count (Start unset 1 empty_pool (adds four_adds)) = 3 \<and>
   \<not> tombstone_count (Start unset 1 empty_pool (adds four_adds)) \<le> 2 * 1"
  by (simp add: tombstone_count_def four_adds_def adds_def pool_evals)

section \<open>Replies to read requests\<close>

lemma reply_copy_eq:
  "reply_copy txs m = (Slice (Made (length m)) (length txs) (length txs), m @ [map Some txs])"
  by (simp add: reply_copy_def make_slice_def copy_into_def)

text \<open>
  C10. \<^verbatim>\<open>List(ASC)\<close> and \<^verbatim>\<open>List(DESC)\<close> reply nil when the list is empty, and allocate
  nothing. \<^verbatim>\<open>TxsFrom(addr)\<close> replies nil when the address has no entry and when its entry
  is the empty list, and allocates nothing. In every other case the reply is the slice,
  of the list's length, of an array made for this reply: it is none of the arrays of the
  pool's own lists and none of the arrays made before, and it holds the elements of the
  list in the list's order.
\<close>

theorem list_replies:
  "(AscTxsByGasPrice p = [] \<longrightarrow> serveListTxs ASC p m = (NilSlice, m)) \<and>
   (DescTxsByGasPrice p = [] \<longrightarrow> serveListTxs DESC p m = (NilSlice, m)) \<and>
   (TxsFromAddress p a = None \<longrightarrow> serveTxsFromA a p m = (NilSlice, m)) \<and>
   (TxsFromAddress p a = Some [] \<longrightarrow> serveTxsFromA a p m = (NilSlice, m)) \<and>
   (AscTxsByGasPrice p \<noteq> [] \<longrightarrow>
      serveListTxs ASC p m =
        (Slice (Made (length m)) (length (AscTxsByGasPrice p)) (length (AscTxsByGasPrice p)),
         m @ [map Some (AscTxsByGasPrice p)])) \<and>
   (DescTxsByGasPrice p \<noteq> [] \<longrightarrow>
      serveListTxs DESC p m =
        (Slice (Made (length m)) (length (DescTxsByGasPrice p)) (length (DescTxsByGasPrice p)),
         m @ [map Some (DescTxsByGasPrice p)])) \<and>
   (\<forall>txs. TxsFromAddress p a = Some txs \<and> txs \<noteq> [] \<longrightarrow>
      serveTxsFromA a p m = (Slice (Made (length m)) (length txs) (length txs), m @ [map Some txs]))"
  by (simp add: serveListTxs_def serveTxsFromA_def reply_copy_eq)

theorem list_replies_witness:
  "serveListTxs ASC empty_pool [] = (NilSlice, []) \<and>
   serveListTxs DESC empty_pool [] = (NilSlice, []) \<and>
   serveTxsFromA 7 empty_pool [] = (NilSlice, []) \<and>
   TxsFromAddress emptied_pool 7 = Some [] \<and>
   serveTxsFromA 7 emptied_pool [] = (NilSlice, []) \<and>
   serveListTxs ASC one_tx_pool [] = (Slice (Made 0) 1 1, [[Some (mk_tx 1 7 10)]]) \<and>
   serveListTxs DESC one_tx_pool [] = (Slice (Made 0) 1 1, [[Some (mk_tx 1 7 10)]]) \<and>
   serveTxsFromA 7 one_tx_pool [] = (Slice (Made 0) 1 1, [[Some (mk_tx 1 7 10)]])"
proof -
  have e: "AscTxsByGasPrice empty_pool = []" "DescTxsByGasPrice empty_pool = []"
    "TxsFromAddress empty_pool 7 = None"
    by (simp_all add: empty_pool_def)
  have o: "AscTxsByGasPrice one_tx_pool = [mk_tx 1 7 10]"
    "DescTxsByGasPrice one_tx_pool = [mk_tx 1 7 10]"
    "TxsFromAddress one_tx_pool 7 = Some [mk_tx 1 7 10]"
    by (simp_all add: one_tx_pool_def empty_pool_def addTx_def allocateFor_def hasBeenAllocatedFor_def mk_tx_def)
  have s: "TxsFromAddress emptied_pool 7 = Some []"
    by (simp add: emptied_pool_def unset_def txAdder_def txRemover_def addTx_def removeTx_def
        allocateFor_def hasBeenAllocatedFor_def needToDropTxs_def PublishAdded_def
        PublishRemoved_def empty_pool_def mk_tx_def Let_def)
  note a = list_replies[where p = empty_pool and a = 7 and m = "[]"]
  note b = list_replies[where p = one_tx_pool and a = 7 and m = "[]"]
  note c = list_replies[where p = emptied_pool and a = 7 and m = "[]"]
  have 1: "serveListTxs ASC empty_pool [] = (NilSlice, [])" using a e by simp
  have 2: "serveListTxs DESC empty_pool [] = (NilSlice, [])" using a e by simp
  have 3: "serveTxsFromA 7 empty_pool [] = (NilSlice, [])" using a e by simp
  have 4: "serveTxsFromA 7 emptied_pool [] = (NilSlice, [])"
    using c s by simp
  have 5: "serveListTxs ASC one_tx_pool [] = (Slice (Made 0) 1 1, [[Some (mk_tx 1 7 10)]])"
    using b o by simp
  have 6: "serveListTxs DESC one_tx_pool [] = (Slice (Made 0) 1 1, [[Some (mk_tx 1 7 10)]])"
    using b o by simp
  have 7: "serveTxsFromA 7 one_tx_pool [] = (Slice (Made 0) 1 1, [[Some (mk_tx 1 7 10)]])"
    using b o by simp
  show ?thesis using 1 2 3 s 4 5 6 7 by simp
qed

text \<open>
  C8. \<^verbatim>\<open>TopXWithHighGasPrice\<close> and \<^verbatim>\<open>TopXWithLowGasPrice\<close> slice the reply without looking at
  its length: asked for one transaction of the empty pool, or for two of a pool of one,
  they panic.
\<close>

theorem TopX_out_of_range:
  "TopXWithHighGasPrice 1 empty_pool [] = Inl SliceBoundsOutOfRange \<and>
   TopXWithLowGasPrice 1 empty_pool [] = Inl SliceBoundsOutOfRange \<and>
   TopXWithHighGasPrice 2 one_tx_pool [] = Inl SliceBoundsOutOfRange \<and>
   TopXWithLowGasPrice 2 one_tx_pool [] = Inl SliceBoundsOutOfRange"
  by (simp add: TopXWithHighGasPrice_def TopXWithLowGasPrice_def serveListTxs_def slice_to_def
      reply_copy_eq one_tx_pool_def empty_pool_def addTx_def allocateFor_def hasBeenAllocatedFor_def)

section \<open>Decoding\<close>

text \<open>
  C3. \<^verbatim>\<open>FromMessagePack\<close> never yields a transaction: whatever the library does with the
  data, the pointer returned is nil, so nothing can be encoded again.
\<close>

theorem FromMessagePack_returns_nil: "fst (FromMessagePack Unmarshal data) = None"
  by (simp add: FromMessagePack_def split: option.splits)

section \<open>Pruning after a failed probe\<close>

lemma prune_one:
  "map TxHash (prune_result (prune_job IsDropped tx)) = [Hash tx]"
  by (cases "IsDropped tx") (simp add: prune_result_def prune_job_def)

text \<open>
  C6. The error of the probe is discarded. For a prunable transaction whose probe fails
  with an error and the flag false, the pruner sends the status \<open>CONFIRMED\<close> and issues
  a \<^verbatim>\<open>Remove\<close> request for it; and whatever the probes answer, a batch issues one
  \<^verbatim>\<open>Remove\<close> request for each of its prunable transactions.
\<close>

theorem Prune_removes_on_probe_error:
  "Prune_removals failing_probe [mk_tx 1 7 10] = [\<lparr>TxHash = 1, Status = CONFIRMED\<rparr>] \<and>
   map TxHash (Prune_removals IsDropped prunables) = map Hash prunables"
proof
  show "Prune_removals failing_probe [mk_tx 1 7 10] = [\<lparr>TxHash = 1, Status = CONFIRMED\<rparr>]"
    by (simp add: Prune_removals_def prune_job_def prune_result_def failing_probe_def mk_tx_def)
  show "map TxHash (Prune_removals IsDropped prunables) = map Hash prunables"
    by (induction prunables) (simp_all add: Prune_removals_def prune_one)
qed

section \<open>Origin suppression\<close>

lemma next_fault_fields:
  "handed (snd (next_fault s)) = handed s"
  "buffered (snd (next_fault s)) = buffered s"
  "flushed (snd (next_fault s)) = flushed s"
  by (simp_all add: next_fault_def split: list.splits)

lemma next_fault_handed:
  "next_fault (s\<lparr>handed := h\<rparr>) = (fst (next_fault s), (snd (next_fault s))\<lparr>handed := h\<rparr>)"
  by (simp add: next_fault_def split: list.splits)

lemma next_fault_buffered:
  "next_fault (s\<lparr>buffered := b\<rparr>) = (fst (next_fault s), (snd (next_fault s))\<lparr>buffered := b\<rparr>)"
  by (simp add: next_fault_def split: list.splits)

lemma rw_Write_eq:
  "rw_Write s c =
     (if fst (next_fault s) then (True, (snd (next_fault s))\<lparr>handed := handed s @ [c]\<rparr>)
      else (False, (snd (next_fault s))\<lparr>handed := handed s @ [c], buffered := buffered s @ [c]\<rparr>))"
  by (simp add: rw_Write_def next_fault_handed next_fault_fields)

lemma rw_Flush_eq:
  "rw_Flush s =
     (if fst (next_fault s) then (True, snd (next_fault s))
      else (False, (snd (next_fault s))\<lparr>flushed := flushed s @ buffered s, buffered := []\<rparr>))"
proof -
  obtain f s1 where n: "next_fault s = (f, s1)" by (cases "next_fault s")
  have "buffered s1 = buffered s" "flushed s1 = flushed s"
    using next_fault_fields(2,3)[of s] n by simp_all
  then show ?thesis using n by (cases f) (simp_all add: rw_Flush_def)
qed

lemma write_flush_cases:
  assumes "(case rw_Write s c of (True, s1) \<Rightarrow> (True, s1) | (False, s1) \<Rightarrow> rw_Flush s1) = (e, s')"
  shows "handed s' = handed s @ [c] \<and>
         (flushed s' = flushed s \<and> set (buffered s') \<subseteq> set (buffered s) \<union> {c} \<or>
          flushed s' = flushed s @ buffered s @ [c] \<and> buffered s' = []) \<and>
         (next_two_succeed s \<longrightarrow> \<not> e \<and> flushed s' = flushed s @ buffered s @ [c])"
proof (cases "fst (next_fault s)")
  case True
  then have "s' = (snd (next_fault s))\<lparr>handed := handed s @ [c]\<rparr>" "e"
    using assms by (simp_all add: rw_Write_eq)
  then show ?thesis using True by (auto simp: next_fault_fields next_two_succeed_def)
next
  case False
  let ?s1 = "(snd (next_fault s))\<lparr>handed := handed s @ [c], buffered := buffered s @ [c]\<rparr>"
  have fl: "rw_Flush ?s1 = (e, s')" using assms False by (simp add: rw_Write_eq)
  have nf: "fst (next_fault ?s1) = fst (next_fault (snd (next_fault s)))"
    by (simp add: next_fault_handed next_fault_buffered)
  have f1: "handed ?s1 = handed s @ [c]" "buffered ?s1 = buffered s @ [c]" "flushed ?s1 = flushed s"
    by (simp_all add: next_fault_fields)
  show ?thesis
  proof (cases "fst (next_fault ?s1)")
    case True
    then have "s' = snd (next_fault ?s1)" "e" using fl by (simp_all add: rw_Flush_eq)
    then show ?thesis using True False nf f1
      by (auto simp: next_fault_fields next_two_succeed_def)
  next
    case ok: False
    then have "s' = (snd (next_fault ?s1))\<lparr>flushed := flushed ?s1 @ buffered ?s1, buffered := []\<rparr>"
      "\<not> e"
      using fl by (simp_all add: rw_Flush_eq)
    then show ?thesis using f1 by (simp add: next_fault_fields)
  qed
qed

lemma write_flush_sets:
  assumes "(case rw_Write s c of (True, s1) \<Rightarrow> (True, s1) | (False, s1) \<Rightarrow> rw_Flush s1) = (e, s')"
  shows "set (handed s') = insert c (set (handed s))"
    and "set (buffered s') \<union> set (flushed s') \<subseteq> insert c (set (buffered s) \<union> set (flushed s))"
    and "set (flushed s) \<subseteq> set (flushed s')"
proof -
  note w = write_flush_cases[OF assms]
  show "set (handed s') = insert c (set (handed s))" using w by simp
  from w have "flushed s' = flushed s \<and> set (buffered s') \<subseteq> set (buffered s) \<union> {c} \<or>
          flushed s' = flushed s @ buffered s @ [c] \<and> buffered s' = []" by blast
  then show "set (buffered s') \<union> set (flushed s') \<subseteq> insert c (set (buffered s) \<union> set (flushed s))"
  proof
    assume "flushed s' = flushed s \<and> set (buffered s') \<subseteq> set (buffered s) \<union> {c}"
    then show ?thesis by auto
  next
    assume "flushed s' = flushed s @ buffered s @ [c] \<and> buffered s' = []"
    then show ?thesis by auto
  qed
  from w have "flushed s' = flushed s \<or> flushed s' = flushed s @ buffered s @ [c]" by blast
  then show "set (flushed s) \<subseteq> set (flushed s')" by auto
qed

lemma process_skip:
  "um (Data m) = None \<or> (\<exists>t. um (Data m) = Some t \<and> ReceivedFrom t = P) \<Longrightarrow>
     process um P m s = (False, s)"
  by (auto simp: process_def)

lemma process_send:
  assumes "um (Data m) = Some t" "ReceivedFrom t \<noteq> P"
  shows "process um P m s =
     (case rw_Write s (frame (Data m)) of (True, s1) \<Rightarrow> (True, s1) | (False, s1) \<Rightarrow> rw_Flush s1)"
proof -
  have len: "length (PutUint32 v) = 4" for v by (simp add: PutUint32_def)
  show ?thesis using assms by (simp add: process_def Let_def len frame_def)
qed

lemma process_foreign:
  assumes "foreign_frames um P s"
  shows "foreign_frames um P (snd (process um P m s))"
proof (cases "um (Data m) = None \<or> (\<exists>t. um (Data m) = Some t \<and> ReceivedFrom t = P)")
  case True
  then show ?thesis using assms process_skip[of um m P s] True by simp
next
  case False
  then obtain t where t: "um (Data m) = Some t" "ReceivedFrom t \<noteq> P" by auto
  obtain e s' where p: "process um P m s = (e, s')" by (cases "process um P m s")
  have ps: "process um P m s =
     (case rw_Write s (frame (Data m)) of (True, s1) \<Rightarrow> (True, s1) | (False, s1) \<Rightarrow> rw_Flush s1)"
    using t by (rule process_send)
  note w = write_flush_sets[OF p[unfolded ps]]
  have new: "\<exists>d t. frame (Data m) = frame d \<and> um d = Some t \<and> ReceivedFrom t \<noteq> P"
    using t by blast
  have old: "\<exists>d t. c = frame d \<and> um d = Some t \<and> ReceivedFrom t \<noteq> P"
    if "c \<in> set (handed s) \<union> set (buffered s) \<union> set (flushed s)" for c
    using assms that unfolding foreign_frames_def by blast
  have "\<exists>d t. c = frame d \<and> um d = Some t \<and> ReceivedFrom t \<noteq> P"
    if c: "c \<in> set (handed s') \<union> set (buffered s') \<union> set (flushed s')" for c
  proof (cases "c = frame (Data m)")
    case True
    then show ?thesis using new by simp
  next
    case False
    then have "c \<in> set (handed s) \<union> set (buffered s) \<union> set (flushed s)"
      using c w(1) w(2) by blast
    then show ?thesis by (rule old)
  qed
  then have "foreign_frames um P s'" unfolding foreign_frames_def by blast
  then show ?thesis using p by simp
qed

lemma process_keeps_handed:
  "c \<in> set (handed s) \<Longrightarrow> c \<in> set (handed (snd (process um P m s)))"
proof (cases "um (Data m) = None \<or> (\<exists>t. um (Data m) = Some t \<and> ReceivedFrom t = P)")
  case True
  assume "c \<in> set (handed s)"
  then show ?thesis using process_skip[of um m P s] True by simp
next
  case False
  assume c: "c \<in> set (handed s)"
  from False obtain t where t: "um (Data m) = Some t" "ReceivedFrom t \<noteq> P" by auto
  obtain e s' where p: "process um P m s = (e, s')" by (cases "process um P m s")
  have ps: "process um P m s =
     (case rw_Write s (frame (Data m)) of (True, s1) \<Rightarrow> (True, s1) | (False, s1) \<Rightarrow> rw_Flush s1)"
    using t by (rule process_send)
  note w = write_flush_sets[OF p[unfolded ps]]
  show ?thesis using w(1) c p by simp
qed

lemma process_keeps_flushed:
  "c \<in> set (flushed s) \<Longrightarrow> c \<in> set (flushed (snd (process um P m s)))"
proof (cases "um (Data m) = None \<or> (\<exists>t. um (Data m) = Some t \<and> ReceivedFrom t = P)")
  case True
  assume "c \<in> set (flushed s)"
  then show ?thesis using process_skip[of um m P s] True by simp
next
  case False
  assume c: "c \<in> set (flushed s)"
  from False obtain t where t: "um (Data m) = Some t" "ReceivedFrom t \<noteq> P" by auto
  obtain e s' where p: "process um P m s = (e, s')" by (cases "process um P m s")
  have ps: "process um P m s =
     (case rw_Write s (frame (Data m)) of (True, s1) \<Rightarrow> (True, s1) | (False, s1) \<Rightarrow> rw_Flush s1)"
    using t by (rule process_send)
  note w = write_flush_sets[OF p[unfolded ps]]
  have "c \<in> set (flushed s')" using w(3) c by blast
  then show ?thesis using p by simp
qed

lemma drain_preserves:
  assumes step: "\<And>m s. R s \<Longrightarrow> R (snd (process um P m s))"
  shows "R s \<Longrightarrow> R (snd (drain um P m n s))"
proof (induction n arbitrary: s)
  case 0
  then show ?case by (simp add: step)
next
  case (Suc n)
  obtain e s' where p: "process um P m s = (e, s')" by (cases "process um P m s")
  have "R s'" using step[OF Suc.prems, of m] p by simp
  then have "R (snd (drain um P m n s'))" by (rule Suc.IH)
  then show ?case using p \<open>R s'\<close> by (cases e) simp_all
qed

lemma WriteLoop_preserves:
  assumes step: "\<And>m s. R s \<Longrightarrow> R (snd (process um P m s))"
  shows "R s \<Longrightarrow> R (fst (WriteLoop um P evs s))"
proof (induction evs arbitrary: s)
  case Nil
  then show ?case by simp
next
  case (Cons ev evs)
  show ?case
  proof (cases ev)
    case Done
    then show ?thesis using Cons.prems by simp
  next
    case (Watched nxt)
    show ?thesis
    proof (cases nxt)
      case None
      then show ?thesis using Watched Cons by simp
    next
      case (Some m)
      obtain e s' where p: "process um P m s = (e, s')" by (cases "process um P m s")
      have q: "R s'" using step[OF Cons.prems, of m] p by simp
      have "R (fst (WriteLoop um P evs s'))" using q by (rule Cons.IH)
      then show ?thesis using Watched Some p q by (cases e) simp_all
    qed
  next
    case (Timeout queued nxt n)
    show ?thesis
    proof (cases "queued \<and> nxt \<noteq> None")
      case False
      then show ?thesis using Timeout Cons by (cases nxt) auto
    next
      case True
      then obtain m where m: "nxt = Some m" and qd: "queued" by auto
      obtain e s' where d: "drain um P m n s = (e, s')" by (cases "drain um P m n s")
      have q: "R s'" using drain_preserves[of R um P s m n] step Cons.prems d by simp
      have "R (fst (WriteLoop um P evs s'))" using q by (rule Cons.IH)
      then show ?thesis using Timeout m qd d q by (cases e) simp_all
    qed
  qed
qed

lemma WriteLoop_foreign:
  "foreign_frames um P s \<Longrightarrow> foreign_frames um P (fst (WriteLoop um P evs s))"
  by (rule WriteLoop_preserves[where R = "foreign_frames um P"]) (rule process_foreign)

lemma ReadFrom_chunk_origin:
  "ReadFrom_chunk um peerId chunk = Some tx \<Longrightarrow> ReceivedFrom tx = peerId"
  by (auto simp: ReadFrom_chunk_def split: option.splits)

lemma frame_inj: "frame d = frame d' \<Longrightarrow> d = d'"
proof -
  assume "frame d = frame d'"
  then have "drop 4 (frame d) = drop 4 (frame d')" by simp
  then show ?thesis by (simp add: frame_def PutUint32_def)
qed

lemma WriteLoop_append:
  "WriteLoop um P (xs @ ys) s =
     (case WriteLoop um P xs s of (s', True) \<Rightarrow> (s', True) | (s', False) \<Rightarrow> WriteLoop um P ys s')"
proof (induction xs arbitrary: s)
  case Nil
  then show ?case by simp
next
  case (Cons ev xs)
  show ?case
  proof (cases ev)
    case Done
    then show ?thesis by simp
  next
    case (Watched nxt)
    then show ?thesis using Cons.IH
      by (cases nxt) (auto split: prod.splits bool.splits)
  next
    case (Timeout queued nxt n)
    then show ?thesis using Cons.IH
      by (cases nxt) (auto split: prod.splits bool.splits)
  qed
qed

lemma drain_first:
  assumes step: "\<And>m s. R s \<Longrightarrow> R (snd (process um P m s))"
    and first: "R (snd (process um P m s))"
  shows "R (snd (drain um P m n s))"
proof (cases n)
  case 0
  then show ?thesis using first by simp
next
  case (Suc k)
  obtain e s' where p: "process um P m s = (e, s')" by (cases "process um P m s")
  have r: "R s'" using first p by simp
  have "R (snd (drain um P m k s'))" using drain_preserves[of R um P s' m k] step r by blast
  then show ?thesis using Suc p r by (cases e) simp_all
qed

lemma delivered_stays:
  assumes step: "\<And>m s. R s \<Longrightarrow> R (snd (process um P m s))"
    and first: "R (snd (process um P m s))"
    and ev: "delivers ev m"
  shows "R (fst (WriteLoop um P (ev # later) s))"
proof (cases ev)
  case Done
  then show ?thesis using ev by (simp add: delivers_def)
next
  case (Watched nxt)
  then have nxt: "nxt = Some m" using ev by (simp add: delivers_def)
  obtain e s' where p: "process um P m s = (e, s')" by (cases "process um P m s")
  have r: "R s'" using first p by simp
  have "R (fst (WriteLoop um P later s'))" using WriteLoop_preserves[of R um P s' later] step r by blast
  then show ?thesis using Watched nxt p r by (cases e) simp_all
next
  case (Timeout queued nxt n)
  then have nxt: "nxt = Some m" "queued" using ev by (simp_all add: delivers_def)
  obtain e s' where d: "drain um P m n s = (e, s')" by (cases "drain um P m n s")
  have r: "R s'" using drain_first[of R um P m s n] step first d by simp
  have "R (fst (WriteLoop um P later s'))" using WriteLoop_preserves[of R um P s' later] step r by blast
  then show ?thesis using Timeout nxt d r by (cases e) simp_all
qed

lemma foreign_framesD:
  assumes "foreign_frames um P s" and "c \<in> set (handed s) \<or> c \<in> set (flushed s)"
  shows "\<exists>d t. c = frame d \<and> um d = Some t \<and> ReceivedFrom t \<noteq> P"
proof -
  have "c \<in> set (handed s) \<union> set (buffered s) \<union> set (flushed s)" using assms(2) by auto
  with assms(1) show ?thesis unfolding foreign_frames_def by (rule bspec)
qed

text \<open>
  C5. Let \<open>d\<close> be the encoding of a transaction \<open>t\<close> whose \<open>ReceivedFrom\<close> is the
  peer id \<open>P\<close>. The writer for \<open>P\<close>, started on a stream nothing was written to, never
  hands the frame of \<open>d\<close> to \<^verbatim>\<open>rw.Write\<close> and never flushes it to the peer, whatever events it
  sees and whichever calls fail. The writer for any other peer \<open>Q\<close> does emit it: when an
  event delivers \<open>d\<close> while the writer is still running, be it through \<^verbatim>\<open>Watch()\<close> or
  through the 256 ms timer, the writer hands the frame of \<open>d\<close> to \<^verbatim>\<open>rw.Write\<close>, and when
  that \<^verbatim>\<open>Write\<close> and the \<^verbatim>\<open>Flush\<close> after it succeed the frame has been flushed to the peer,
  and stays so whatever follows.
\<close>

theorem gossip_origin_suppression:
  assumes "um d = Some t" and "ReceivedFrom t = P"
  shows "(handed s0 = [] \<and> buffered s0 = [] \<and> flushed s0 = [] \<longrightarrow>
            frame d \<notin> set (handed (fst (WriteTo um subscribed P evs s0))) \<and>
            frame d \<notin> set (flushed (fst (WriteTo um subscribed P evs s0)))) \<and>
         (Q \<noteq> P \<and> delivers ev \<lparr>Topic = topic, Data = d\<rparr> \<and>
          WriteTo um True Q before s = (s1, False) \<longrightarrow>
            frame d \<in> set (handed (fst (WriteTo um True Q (before @ ev # later) s))) \<and>
            (next_two_succeed s1 \<longrightarrow>
               frame d \<in> set (flushed (fst (WriteTo um True Q (before @ ev # later) s)))))"
proof (intro conjI impI)
  assume fresh: "handed s0 = [] \<and> buffered s0 = [] \<and> flushed s0 = []"
  let ?s = "fst (WriteTo um subscribed P evs s0)"
  from fresh have f0: "foreign_frames um P s0" by (simp add: foreign_frames_def)
  then have "foreign_frames um P (fst (WriteLoop um P evs s0))" by (rule WriteLoop_foreign)
  then have f: "foreign_frames um P ?s" using f0 by (simp add: WriteTo_def)
  have no: False if c: "frame d \<in> set (handed ?s) \<or> frame d \<in> set (flushed ?s)"
  proof -
    from foreign_framesD[OF f c] obtain d' t' where
      e: "frame d = frame d'" and u': "um d' = Some t'" and r': "ReceivedFrom t' \<noteq> P"
      by blast
    have "d = d'" using e by (rule frame_inj)
    then have "t' = t" using assms(1) u' by simp
    then show False using assms(2) r' by simp
  qed
  show "frame d \<notin> set (handed ?s)" using no by blast
  show "frame d \<notin> set (flushed ?s)" using no by blast
next
  assume h: "Q \<noteq> P \<and> delivers ev \<lparr>Topic = topic, Data = d\<rparr> \<and>
          WriteTo um True Q before s = (s1, False)"
  let ?m = "\<lparr>Topic = topic, Data = d\<rparr>"
  have t: "um (Data ?m) = Some t" "ReceivedFrom t \<noteq> Q" using assms h by auto
  have run: "WriteTo um True Q (before @ ev # later) s = WriteLoop um Q (ev # later) s1"
    using h by (simp add: WriteTo_def WriteLoop_append)
  obtain e s2 where p: "process um Q ?m s1 = (e, s2)" by (cases "process um Q ?m s1")
  have ps: "process um Q ?m s1 =
     (case rw_Write s1 (frame (Data ?m)) of (True, s') \<Rightarrow> (True, s') | (False, s') \<Rightarrow> rw_Flush s')"
    using t by (rule process_send)
  have fd: "frame (Data ?m) = frame d" by simp
  note w = write_flush_cases[OF p[unfolded ps fd]]
  have dl: "delivers ev ?m" using h by simp
  have h1: "frame d \<in> set (handed (snd (process um Q ?m s1)))" using w p by simp
  have "frame d \<in> set (handed (fst (WriteLoop um Q (ev # later) s1)))"
  proof (rule delivered_stays[where R = "\<lambda>s. frame d \<in> set (handed s)" and m = ?m])
    show "\<And>m s. frame d \<in> set (handed s) \<Longrightarrow> frame d \<in> set (handed (snd (process um Q m s)))"
      by (rule process_keeps_handed)
    show "frame d \<in> set (handed (snd (process um Q ?m s1)))" by (rule h1)
    show "delivers ev ?m" by (rule dl)
  qed
  then show "frame d \<in> set (handed (fst (WriteTo um True Q (before @ ev # later) s)))"
    using run by simp
  show "frame d \<in> set (flushed (fst (WriteTo um True Q (before @ ev # later) s)))"
    if ok: "next_two_succeed s1"
  proof -
    have f1: "frame d \<in> set (flushed (snd (process um Q ?m s1)))" using w p ok by simp
    have "frame d \<in> set (flushed (fst (WriteLoop um Q (ev # later) s1)))"
    proof (rule delivered_stays[where R = "\<lambda>s. frame d \<in> set (flushed s)" and m = ?m])
      show "\<And>m s. frame d \<in> set (flushed s) \<Longrightarrow> frame d \<in> set (flushed (snd (process um Q m s)))"
        by (rule process_keeps_flushed)
      show "frame d \<in> set (flushed (snd (process um Q ?m s1)))" by (rule f1)
      show "delivers ev ?m" by (rule dl)
    qed
    then show ?thesis using run by simp
  qed
qed

theorem gossip_origin_suppression_witness:
  "frame [221] \<notin> set (handed (fst (WriteTo from_peer_A True ''peer A''
       [Watched (Some msg_dd), Timeout True (Some msg_dd) 3] new_stream))) \<and>
   frame [221] \<in> set (flushed (fst (WriteTo from_peer_A True ''peer B''
       ([] @ Watched (Some msg_dd) # []) new_stream))) \<and>
   frame [221] \<in> set (flushed (fst (WriteTo from_peer_A True ''peer B''
       ([Watched None] @ Timeout True (Some msg_dd) 3 # [Done]) new_stream)))"
proof -
  have u: "from_peer_A [221] = Some tx_dd" by (simp add: from_peer_A_def)
  have r: "ReceivedFrom tx_dd = ''peer A''" by (simp add: tx_dd_def)
  have fresh: "handed new_stream = [] \<and> buffered new_stream = [] \<and> flushed new_stream = []"
    by (simp add: new_stream_def)
  have ok: "next_two_succeed new_stream" by (simp add: next_two_succeed_def next_fault_def new_stream_def)
  have ne: "''peer B'' \<noteq> ''peer A''" by simp
  have m: "msg_dd = \<lparr>Topic = ''pending_pool_entry'', Data = [221]\<rparr>" by (simp add: msg_dd_def)
  have d1: "delivers (Watched (Some msg_dd)) \<lparr>Topic = ''pending_pool_entry'', Data = [221]\<rparr>"
    by (simp add: delivers_def m)
  have d2: "delivers (Timeout True (Some msg_dd) 3) \<lparr>Topic = ''pending_pool_entry'', Data = [221]\<rparr>"
    by (simp add: delivers_def m)
  have b1: "WriteTo from_peer_A True ''peer B'' [] new_stream = (new_stream, False)"
    by (simp add: WriteTo_def)
  have b2: "WriteTo from_peer_A True ''peer B'' [Watched None] new_stream = (new_stream, False)"
    by (simp add: WriteTo_def)
  note g0 = gossip_origin_suppression[where um = from_peer_A and d = "[221]" and t = tx_dd
      and P = "''peer A''" and ?s0.0 = new_stream and subscribed = True
      and evs = "[Watched (Some msg_dd), Timeout True (Some msg_dd) 3]"
      and Q = "''peer B''" and ev = "Watched (Some msg_dd)" and topic = "''pending_pool_entry''"
      and before = "[]" and s = new_stream and ?s1.0 = new_stream and later = "[]", OF u r]
  note g1 = gossip_origin_suppression[where um = from_peer_A and d = "[221]" and t = tx_dd
      and P = "''peer A''" and ?s0.0 = new_stream and subscribed = True
      and evs = "[]"
      and Q = "''peer B''" and ev = "Timeout True (Some msg_dd) 3" and topic = "''pending_pool_entry''"
      and before = "[Watched None]" and s = new_stream and ?s1.0 = new_stream and later = "[Done]",
      OF u r]
  have 1: "frame [221] \<notin> set (handed (fst (WriteTo from_peer_A True ''peer A''
       [Watched (Some msg_dd), Timeout True (Some msg_dd) 3] new_stream)))"
    using conjunct1[OF g0] fresh by simp
  have 2: "frame [221] \<in> set (flushed (fst (WriteTo from_peer_A True ''peer B''
       ([] @ Watched (Some msg_dd) # []) new_stream)))"
    using conjunct2[OF g0] ne d1 b1 ok by simp
  have 3: "frame [221] \<in> set (flushed (fst (WriteTo from_peer_A True ''peer B''
       ([Watched None] @ Timeout True (Some msg_dd) 3 # [Done]) new_stream)))"
    using conjunct2[OF g1] ne d2 b2 ok by simp
  show ?thesis using 1 2 3 by (intro conjI)
qed

section \<open>Polling\<close>

text \<open>
  C9. The poller tells a cancellation from any other failure by the text of the error
  alone, and it multiplies the period in 64 bits. An error that does not contain
  "context canceled" makes it close the sentinel channel and return. An error that
  contains this text, such as a failure the node reports about its own upstream, makes it
  return without closing the channel, although nothing was cancelled. With a period of
  9223372036855 ms the duration wraps around to a negative number of nanoseconds, so after
  a successful call the poller does not wait the period: it polls again at once.
\<close>

theorem PollTxPoolContent_silent_exit_and_overflow:
  "PollTxPoolContent cfg (Failure ''connection refused'' # rest) = ([CloseComm], True) \<and>
   PollTxPoolContent cfg (Failure ''upstream: context canceled'' # rest) = ([], True) \<and>
   GetMemPoolPollingPeriod huge_period = 9223372036855 \<and>
   PollTxPoolContent huge_period [Result r] =
     ([Process r, Stat, Sleep (- 9223372036854551616)], False)"
proof (intro conjI)
  show "PollTxPoolContent cfg (Failure ''connection refused'' # rest) = ([CloseComm], True)"
    by simp
  show "PollTxPoolContent cfg (Failure ''upstream: context canceled'' # rest) = ([], True)"
    by simp
  show p: "GetMemPoolPollingPeriod huge_period = 9223372036855"
    by (simp add: GetMemPoolPollingPeriod_def ParseUint_def digit_def huge_period_def)
  show "PollTxPoolContent huge_period [Result r] =
     ([Process r, Stat, Sleep (- 9223372036854551616)], False)"
    by (simp add: p sleep_for_def)
qed

end
